theory Spec2Isabelle
  imports Complex_Main "HOL-Library.Log_Nat"
begin

section \<open>Python numbers as used by generator.py\<close>

text \<open>
  The program computes with Python integers (unbounded, modelled as \<open>int\<close>) and Python
  floats (IEEE 754 binary64, round to nearest, ties to even).  A finite float is modelled
  by the rational number it denotes; the two zeros are identified, since no operation of
  the program tells them apart (there is no division by a float, and \<open>round\<close> maps both
  to the integer 0).  Every exception the arithmetic can raise is a value of \<open>error\<close>.
\<close>

datatype error = ZeroDivisionError | OverflowError | ValueError

datatype pyfloat = Fin rat | PInf | NInf | NaN

definition ebind :: "error + 'a \<Rightarrow> ('a \<Rightarrow> error + 'b) \<Rightarrow> error + 'b" where
  "ebind m f = (case m of Inl e \<Rightarrow> Inl e | Inr x \<Rightarrow> f x)"

text \<open>Rounding a rational to the nearest integer, ties to the even neighbour.\<close>

definition round_half_even :: "rat \<Rightarrow> int" where
  "round_half_even x =
     (let f = \<lfloor>x\<rfloor>; d = x - of_int f
      in if d < 1 / 2 then f
         else if 1 / 2 < d then f + 1
         else if even f then f else f + 1)"

text \<open>\<open>ilog2 x\<close> is the integer \<open>k\<close> with \<open>2^k \<le> x < 2^(k+1)\<close>, for positive \<open>x\<close>.\<close>

definition ilog2 :: "rat \<Rightarrow> int" where
  "ilog2 x =
     (let k = bitlen (fst (quotient_of x)) - bitlen (snd (quotient_of x))
      in if 2 powi k \<le> x then k else k - 1)"

text \<open>
  The exponent of the unit in the last place of the binary64 format at \<open>x\<close>: 53
  significant bits for normal numbers, the fixed spacing \<open>2^(-1074)\<close> below \<open>2^(-1022)\<close>.
\<close>

definition b64_exp :: "rat \<Rightarrow> int" where
  "b64_exp x = max (ilog2 \<bar>x\<bar> - 52) (- 1074)"

definition b64_round :: "rat \<Rightarrow> rat" where
  "b64_round x =
     (if x = 0 then 0
      else of_int (round_half_even (x / 2 powi b64_exp x)) * 2 powi b64_exp x)"

text \<open>The result of a float operation whose exact value is \<open>x\<close>; overflow gives an infinity.\<close>

definition to_float :: "rat \<Rightarrow> pyfloat" where
  "to_float x =
     (let y = b64_round x
      in if 2 ^ 1024 \<le> y then PInf else if y \<le> - (2 ^ 1024) then NInf else Fin y)"

text \<open>\<open>float(a)\<close> as the arithmetic operators apply it to an integer operand.\<close>

definition float_of_int :: "int \<Rightarrow> error + pyfloat" where
  "float_of_int a =
     (case to_float (of_int a) of Fin y \<Rightarrow> Inr (Fin y) | _ \<Rightarrow> Inl OverflowError)"

text \<open>\<open>a / b\<close> on two integers: the correctly rounded quotient.\<close>

definition int_truediv :: "int \<Rightarrow> int \<Rightarrow> error + pyfloat" where
  "int_truediv a b =
     (if b = 0 then Inl ZeroDivisionError
      else case to_float (of_int a / of_int b) of
             Fin y \<Rightarrow> Inr (Fin y)
           | _ \<Rightarrow> Inl OverflowError)"

fun fneg :: "pyfloat \<Rightarrow> pyfloat" where
  "fneg (Fin x) = Fin (- x)"
| "fneg PInf = NInf"
| "fneg NInf = PInf"
| "fneg NaN = NaN"

fun fadd :: "pyfloat \<Rightarrow> pyfloat \<Rightarrow> pyfloat" where
  "fadd (Fin x) (Fin y) = to_float (x + y)"
| "fadd NaN _ = NaN"
| "fadd _ NaN = NaN"
| "fadd PInf NInf = NaN"
| "fadd NInf PInf = NaN"
| "fadd PInf _ = PInf"
| "fadd NInf _ = NInf"
| "fadd _ PInf = PInf"
| "fadd _ NInf = NInf"

definition fsub :: "pyfloat \<Rightarrow> pyfloat \<Rightarrow> pyfloat" where
  "fsub x y = fadd x (fneg y)"

fun fmul :: "pyfloat \<Rightarrow> pyfloat \<Rightarrow> pyfloat" where
  "fmul (Fin x) (Fin y) = to_float (x * y)"
| "fmul NaN _ = NaN"
| "fmul _ NaN = NaN"
| "fmul (Fin x) PInf = (if x = 0 then NaN else if 0 < x then PInf else NInf)"
| "fmul (Fin x) NInf = (if x = 0 then NaN else if 0 < x then NInf else PInf)"
| "fmul PInf (Fin y) = (if y = 0 then NaN else if 0 < y then PInf else NInf)"
| "fmul NInf (Fin y) = (if y = 0 then NaN else if 0 < y then NInf else PInf)"
| "fmul PInf PInf = PInf"
| "fmul PInf NInf = NInf"
| "fmul NInf PInf = NInf"
| "fmul NInf NInf = PInf"

text \<open>\<open>int * float\<close>, \<open>int - float\<close>: the integer operand is converted first.\<close>

definition int_mul_float :: "int \<Rightarrow> pyfloat \<Rightarrow> error + pyfloat" where
  "int_mul_float a y = ebind (float_of_int a) (\<lambda>x. Inr (fmul x y))"

definition int_sub_float :: "int \<Rightarrow> pyfloat \<Rightarrow> error + pyfloat" where
  "int_sub_float a y = ebind (float_of_int a) (\<lambda>x. Inr (fsub x y))"

text \<open>The builtin \<open>round\<close> with one argument, on a float.\<close>

fun py_round :: "pyfloat \<Rightarrow> error + int" where
  "py_round (Fin x) = Inr (round_half_even x)"
| "py_round PInf = Inl OverflowError"
| "py_round NInf = Inl OverflowError"
| "py_round NaN = Inl ValueError"

section \<open>The module functions\<close>

type_synonym color = "int \<times> int \<times> int"

text \<open>\<open>mix(a, b, ratio_b) = a * (1-ratio_b) + b * ratio_b\<close>\<close>

definition mix :: "int \<Rightarrow> int \<Rightarrow> pyfloat \<Rightarrow> error + pyfloat" where
  "mix a b ratio_b =
     ebind (int_sub_float 1 ratio_b) (\<lambda>u.
     ebind (int_mul_float a u) (\<lambda>x.
     ebind (int_mul_float b ratio_b) (\<lambda>y.
     Inr (fadd x y))))"

definition mix_colors :: "color \<Rightarrow> color \<Rightarrow> pyfloat \<Rightarrow> error + color" where
  "mix_colors c1 c2 ratio_c2 =
     ebind (ebind (mix (fst c1) (fst c2) ratio_c2) py_round) (\<lambda>h.
     ebind (ebind (mix (fst (snd c1)) (fst (snd c2)) ratio_c2) py_round) (\<lambda>s.
     ebind (ebind (mix (snd (snd c1)) (snd (snd c2)) ratio_c2) py_round) (\<lambda>v.
     Inr (h, s, v))))"

definition hsv_adjust_range :: "color \<Rightarrow> color \<Rightarrow> error + color" where
  "hsv_adjust_range color current_range =
     ebind (ebind (int_truediv (255 * fst color) (fst current_range)) py_round) (\<lambda>h.
     ebind (ebind (int_truediv (255 * fst (snd color)) (fst (snd current_range))) py_round) (\<lambda>s.
     ebind (ebind (int_truediv (255 * snd (snd color)) (snd (snd current_range))) py_round) (\<lambda>v.
     Inr (h, s, v))))"

section \<open>The palette\<close>

record PixelPalette =
  rows :: "color list list"
  hsv_range :: color

text \<open>\<open>__init__\<close>: stores the range as given and starts with no rows.\<close>

definition init :: "color \<Rightarrow> PixelPalette" where
  "init rng = \<lparr>rows = [], hsv_range = rng\<rparr>"

text \<open>
  A method either returns normally (\<open>None\<close>) or raises (\<open>Some e\<close>); in both cases the
  palette object as the call leaves it is the second component.
\<close>

type_synonym 'a outcome = "error option \<times> 'a"

text \<open>The \<open>for i in range(number_in_between)\<close> loop of \<open>add_gradient\<close>, over the
  remaining indices, with \<open>new_row\<close> as built so far.\<close>

primrec gradient_loop :: "color \<Rightarrow> color \<Rightarrow> int \<Rightarrow> int list \<Rightarrow> color list \<Rightarrow> error + color list" where
  "gradient_loop color1 color2 number_in_between [] new_row = Inr new_row"
| "gradient_loop color1 color2 number_in_between (i # idxs) new_row =
     ebind (int_truediv (i + 1) (number_in_between + 1)) (\<lambda>ratio.
     ebind (mix_colors color1 color2 ratio) (\<lambda>c.
     gradient_loop color1 color2 number_in_between idxs
       (new_row @ [(fst c mod 255, fst (snd c), snd (snd c))])))"

text \<open>The body of \<open>add_gradient\<close> up to, and without, the final \<open>self.rows.append\<close>.\<close>

definition gradient_row :: "color \<Rightarrow> color \<Rightarrow> color \<Rightarrow> int \<Rightarrow> bool \<Rightarrow> error + color list" where
  "gradient_row rng color1 color2 number_in_between hue_ascending =
     ebind (hsv_adjust_range color1 rng) (\<lambda>c1.
     ebind (hsv_adjust_range color2 rng) (\<lambda>c2.
     ebind (gradient_loop
              (if \<not> hue_ascending then (fst c1 + 255, fst (snd c1), snd (snd c1)) else c1)
              c2 number_in_between [0..number_in_between - 1] [c1]) (\<lambda>new_row.
     Inr (new_row @ [c2]))))"

definition add_gradient :: "color \<Rightarrow> color \<Rightarrow> int \<Rightarrow> bool \<Rightarrow> PixelPalette \<Rightarrow> PixelPalette outcome" where
  "add_gradient color1 color2 number_in_between hue_ascending self =
     (case gradient_row (hsv_range self) color1 color2 number_in_between hue_ascending of
        Inl e \<Rightarrow> (Some e, self)
      | Inr new_row \<Rightarrow> (None, self\<lparr>rows := rows self @ [new_row]\<rparr>))"

text \<open>The body of \<open>add_shades\<close> up to the final append; \<open>range(-number_down, number_up+1)\<close>
  is the integer interval \<open>[-number_down..number_up]\<close>, empty when the bounds cross.\<close>

definition shades_row :: "color \<Rightarrow> color \<Rightarrow> color \<Rightarrow> int \<Rightarrow> int \<Rightarrow> error + color list" where
  "shades_row rng base_color shift number_down number_up =
     ebind (hsv_adjust_range base_color rng) (\<lambda>b.
     ebind (hsv_adjust_range shift rng) (\<lambda>s.
     Inr (map (\<lambda>i. (fst b + fst s * i, fst (snd b) + fst (snd s) * i, snd (snd b) + snd (snd s) * i))
            [- number_down..number_up])))"

definition add_shades :: "color \<Rightarrow> color \<Rightarrow> int \<Rightarrow> int \<Rightarrow> PixelPalette \<Rightarrow> PixelPalette outcome" where
  "add_shades base_color shift number_down number_up self =
     (case shades_row (hsv_range self) base_color shift number_down number_up of
        Inl e \<Rightarrow> (Some e, self)
      | Inr new_row \<Rightarrow> (None, self\<lparr>rows := rows self @ [new_row]\<rparr>))"

text \<open>
  \<open>save_as_image\<close> computes the width and the flat pixel list and hands them to the
  imaging library (\<open>Image.new\<close>, \<open>putdata\<close>, \<open>convert\<close>, \<open>save\<close>).  The library is outside
  the program; what it is given is recorded as an \<open>image_request\<close>.
\<close>

record image_request =
  img_mode :: string
  img_size :: "nat \<times> nat"
  img_data :: "color list"
  img_convert :: string
  img_filename :: string

definition image_width :: "color list list \<Rightarrow> nat" where
  "image_width rs = foldl (\<lambda>width row. max width (length row)) 0 rs"

definition image_pixels :: "nat \<Rightarrow> color list list \<Rightarrow> color list" where
  "image_pixels width rs =
     concat (map (\<lambda>row. map (\<lambda>i. if i < length row then row ! i else (0, 0, 0)) [0..<width]) rs)"

definition save_as_image :: "string \<Rightarrow> PixelPalette \<Rightarrow> image_request \<times> PixelPalette" where
  "save_as_image filename self =
     (let width = image_width (rows self)
      in (\<lparr>img_mode = ''HSV'', img_size = (width, length (rows self)),
           img_data = image_pixels width (rows self),
           img_convert = ''RGB'', img_filename = filename\<rparr>, self))"

text \<open>
  What one iteration of the loop of \<open>add_gradient\<close> appends for index \<open>i\<close>: the mix at
  ratio \<open>(i+1)/(number_in_between+1)\<close> with its hue taken modulo 255.
\<close>

definition gradient_color :: "color \<Rightarrow> color \<Rightarrow> int \<Rightarrow> int \<Rightarrow> error + color" where
  "gradient_color color1 color2 number_in_between i =
     ebind (int_truediv (i + 1) (number_in_between + 1)) (\<lambda>ratio.
     ebind (mix_colors color1 color2 ratio) (\<lambda>c.
     Inr (fst c mod 255, fst (snd c), snd (snd c))))"

text \<open>The projections of a colour.\<close>

definition hue :: "color \<Rightarrow> int" where "hue c = fst c"
definition saturation :: "color \<Rightarrow> int" where "saturation c = fst (snd c)"
definition val :: "color \<Rightarrow> int" where "val c = snd (snd c)"

text \<open>
  The specification's ``short arc through 0'' between the canonical hues 248 (350 degrees)
  and 7 (10 degrees): the hues from 248 up to the wrap and from 0 to 7.
\<close>

definition short_arc :: "int \<Rightarrow> bool" where
  "short_arc h = ((248 \<le> h \<and> h \<le> 254) \<or> (0 \<le> h \<and> h \<le> 7))"

text \<open>
  The values the float operations of \<open>mix\<close> and of the ratio produce when nothing
  overflows: every operation rounds its exact result to binary64.
\<close>

definition mix_value :: "int \<Rightarrow> int \<Rightarrow> rat \<Rightarrow> rat" where
  "mix_value a b t =
     b64_round (b64_round (b64_round (of_int a) * b64_round (1 - t))
                + b64_round (b64_round (of_int b) * t))"

definition gradient_ratio :: "int \<Rightarrow> int \<Rightarrow> rat" where
  "gradient_ratio number_in_between i = b64_round (of_int (i + 1) / of_int (number_in_between + 1))"

definition interior_color :: "color \<Rightarrow> color \<Rightarrow> int \<Rightarrow> int \<Rightarrow> color" where
  "interior_color c1 c2 number_in_between i =
     (round_half_even (mix_value (fst c1) (fst c2) (gradient_ratio number_in_between i)) mod 255,
      round_half_even (mix_value (fst (snd c1)) (fst (snd c2)) (gradient_ratio number_in_between i)),
      round_half_even (mix_value (snd (snd c1)) (snd (snd c2)) (gradient_ratio number_in_between i)))"

text \<open>The conversion of one channel when the division neither fails nor overflows.\<close>

definition canonical_channel :: "int \<Rightarrow> int \<Rightarrow> int" where
  "canonical_channel c r = round_half_even (b64_round (of_int (255 * c) / of_int r))"

text \<open>The exact value the mix approximates at index \<open>i\<close>.\<close>

definition exact_mix :: "int \<Rightarrow> int \<Rightarrow> int \<Rightarrow> int \<Rightarrow> rat" where
  "exact_mix a b n i = of_int (a * (n - i) + b * (i + 1)) / of_int (n + 1)"

section \<open>Rounding to an integer\<close>

lemma round_half_even_bounds:
  "\<lceil>x - 1 / 2\<rceil> \<le> round_half_even x \<and> round_half_even x \<le> \<lfloor>x + 1 / 2\<rfloor>"
proof -
  define f where "f = \<lfloor>x\<rfloor>"
  define d where "d = x - of_int f"
  have d: "0 \<le> d" "d < 1" unfolding d_def f_def by linarith+
  have x: "x = of_int f + d" by (simp add: d_def)
  have r: "round_half_even x = (if d < 1 / 2 then f else if 1 / 2 < d then f + 1 else if even f then f else f + 1)"
    by (simp add: round_half_even_def Let_def f_def d_def)
  have "x - 1 / 2 \<le> of_int (round_half_even x)" "of_int (round_half_even x) \<le> x + 1 / 2"
    unfolding r using d by (auto simp: x)
  then show ?thesis
    by (simp add: ceiling_le_iff le_floor_iff)
qed

lemma round_half_even_error: "\<bar>of_int (round_half_even x) - x\<bar> \<le> 1 / 2"
proof -
  have "of_int \<lfloor>x + 1 / 2\<rfloor> \<le> x + 1 / 2" by linarith
  moreover have "x - 1 / 2 \<le> of_int \<lceil>x - 1 / 2\<rceil>" by linarith
  moreover have "(of_int (round_half_even x) :: rat) \<le> of_int \<lfloor>x + 1 / 2\<rfloor>"
    using round_half_even_bounds [of x] by (simp only: of_int_le_iff)
  moreover have "(of_int \<lceil>x - 1 / 2\<rceil> :: rat) \<le> of_int (round_half_even x)"
    using round_half_even_bounds [of x] by (simp only: of_int_le_iff)
  ultimately show ?thesis by linarith
qed

lemma round_half_even_le: "x \<le> of_int m \<Longrightarrow> round_half_even x \<le> m"
proof -
  assume "x \<le> of_int m"
  then have "\<lfloor>x + 1 / 2\<rfloor> \<le> m" by linarith
  with round_half_even_bounds [of x] show ?thesis by linarith
qed

lemma round_half_even_ge: "of_int m \<le> x \<Longrightarrow> m \<le> round_half_even x"
proof -
  assume "of_int m \<le> x"
  then have "m \<le> \<lceil>x - 1 / 2\<rceil>" by linarith
  with round_half_even_bounds [of x] show ?thesis by linarith
qed

lemma round_half_even_of_int [simp]: "round_half_even (of_int m) = m"
  using round_half_even_le [of "of_int m" m] round_half_even_ge [of m "of_int m"] by simp

lemma round_half_even_eqI:
  "of_int k - 1 / 2 < x \<Longrightarrow> x < of_int k + 1 / 2 \<Longrightarrow> round_half_even x = k"
proof -
  assume a: "of_int k - 1 / 2 < x" "x < of_int k + 1 / 2"
  then have "\<lfloor>x + 1 / 2\<rfloor> \<le> k" "k \<le> \<lceil>x - 1 / 2\<rceil>" by linarith+
  with round_half_even_bounds [of x] show ?thesis by linarith
qed

section \<open>Binary exponents\<close>

lemma bitlen_powi_bounds:
  assumes "0 < p"
  shows "(2::rat) powi (bitlen p - 1) \<le> of_int p" "of_int p < (2::rat) powi bitlen p"
proof -
  from assms have b: "1 \<le> bitlen p" by (simp add: bitlen_alt_def)
  from bitlen_bounds [OF assms]
  have "(2::int) ^ nat (bitlen p - 1) \<le> p" "p < 2 ^ nat (bitlen p)" by simp_all
  then have "(of_int ((2::int) ^ nat (bitlen p - 1)) :: rat) \<le> of_int p"
    "(of_int p :: rat) < of_int (2 ^ nat (bitlen p))"
    by (simp_all only: of_int_le_iff of_int_less_iff)
  then show "(2::rat) powi (bitlen p - 1) \<le> of_int p" "of_int p < (2::rat) powi bitlen p"
    using b by (simp_all add: power_int_def)
qed

lemma ilog2_bounds:
  assumes "0 < x"
  shows "2 powi ilog2 x \<le> x" "x < 2 powi (ilog2 x + 1)"
proof -
  obtain p d where q: "quotient_of x = (p, d)" by (cases "quotient_of x")
  then have d: "0 < d" and x: "x = of_int p / of_int d"
    by (simp_all add: quotient_of_denom_pos quotient_of_div)
  from assms x d have p: "0 < p" by (simp add: zero_less_divide_iff)
  define k where "k = bitlen p - bitlen d"
  have il: "ilog2 x = (if 2 powi k \<le> x then k else k - 1)"
    by (simp add: ilog2_def q k_def Let_def)
  note bp = bitlen_powi_bounds [OF p] and bd = bitlen_powi_bounds [OF d]
  have dpos: "(0::rat) < of_int d" using d by simp
  have "x < 2 powi bitlen p / of_int d"
    unfolding x using bp(2) dpos by (simp add: divide_strict_right_mono)
  also have "\<dots> \<le> 2 powi bitlen p / 2 powi (bitlen d - 1)"
    using bd(1) dpos by (intro divide_left_mono mult_pos_pos) simp_all
  also have "\<dots> = 2 powi (k + 1)"
  proof -
    have "k + 1 = bitlen p - (bitlen d - 1)" by (simp add: k_def)
    then show ?thesis by (simp only: power_int_diff [of "2::rat", simplified])
  qed
  finally have up: "x < 2 powi (k + 1)" .
  have "k - 1 = (bitlen p - 1) - bitlen d" by (simp add: k_def)
  then have "(2::rat) powi (k - 1) = 2 powi (bitlen p - 1) / 2 powi bitlen d"
    by (simp only: power_int_diff [of "2::rat", simplified])
  also have "\<dots> \<le> of_int p / 2 powi bitlen d"
    using bp(1) by (intro divide_right_mono) simp_all
  also have "\<dots> \<le> of_int p / of_int d"
    using bd(2) p dpos by (intro divide_left_mono mult_pos_pos) simp_all
  finally have lo: "2 powi (k - 1) \<le> x" by (simp add: x)
  show "2 powi ilog2 x \<le> x" using lo by (simp add: il)
  show "x < 2 powi (ilog2 x + 1)" using up by (auto simp: il not_le)
qed

lemma powi2_le_iff: "(2::rat) powi a \<le> 2 powi b \<longleftrightarrow> a \<le> b"
  by (metis power_int_increasing power_int_strict_increasing not_le one_less_numeral_iff
      semiring_norm(76) one_le_numeral)

lemma powi2_less_iff: "(2::rat) powi a < 2 powi b \<longleftrightarrow> a < b"
  using powi2_le_iff [of b a] by (simp add: not_le [symmetric])

lemma ilog2_unique:
  assumes "2 powi k \<le> x" "x < 2 powi (k + 1)"
  shows "ilog2 x = k"
proof -
  have "(0::rat) < 2 powi k" by simp
  with assms have x: "0 < x" by linarith
  from ilog2_bounds [OF x] assms
  have "(2::rat) powi k < 2 powi (ilog2 x + 1)" "(2::rat) powi ilog2 x < 2 powi (k + 1)"
    by linarith+
  then show ?thesis by (simp add: powi2_less_iff)
qed

lemma ilog2_le:
  assumes "0 < x" "x \<le> 2 powi K"
  shows "ilog2 x \<le> K"
proof -
  from ilog2_bounds(1) [OF assms(1)] assms(2) have "(2::rat) powi ilog2 x \<le> 2 powi K" by linarith
  then show ?thesis by (simp add: powi2_le_iff)
qed

lemma ilog2_less:
  assumes "0 < x" "x < 2 powi K"
  shows "ilog2 x < K"
proof -
  from ilog2_bounds(1) [OF assms(1)] assms(2) have "(2::rat) powi ilog2 x < 2 powi K" by linarith
  then show ?thesis by (simp add: powi2_less_iff)
qed

section \<open>Rounding to binary64\<close>

lemma b64_exp_ge: "- 1074 \<le> b64_exp x"
  by (simp add: b64_exp_def)

lemma b64_exp_le:
  assumes "x \<noteq> 0" "\<bar>x\<bar> \<le> 2 powi K" "- 1074 \<le> E" "K - 52 \<le> E"
  shows "b64_exp x \<le> E"
proof -
  from assms(1) have "0 < \<bar>x\<bar>" by simp
  from ilog2_le [OF this assms(2)] assms(3,4) show ?thesis by (simp add: b64_exp_def)
qed

lemma b64_exp_le_strict:
  assumes "x \<noteq> 0" "\<bar>x\<bar> < 2 powi K" "- 1074 \<le> E" "K - 53 \<le> E"
  shows "b64_exp x \<le> E"
proof -
  from assms(1) have "0 < \<bar>x\<bar>" by simp
  from ilog2_less [OF this assms(2)] assms(3,4) show ?thesis by (simp add: b64_exp_def)
qed

lemma powi2_split: "(2::rat) powi a = 2 powi (a - b) * 2 powi b"
  by (simp add: power_int_add [symmetric])

lemma powi2_nat: "0 \<le> a \<Longrightarrow> (2::rat) powi a = of_int (2 ^ nat a)"
  by (simp add: power_int_def)

text \<open>A number on the grid of its own exponent is a float.\<close>

lemma b64_round_grid:
  assumes "x = of_int m * 2 powi e" "b64_exp x \<le> e"
  shows "b64_round x = x"
proof (cases "x = 0")
  case True
  then show ?thesis by (simp add: b64_round_def)
next
  case False
  define e' where "e' = b64_exp x"
  have "x / 2 powi e' = of_int m * 2 powi (e - e')"
    unfolding assms(1) by (subst powi2_split [of e e']) simp
  also have "\<dots> = of_int (m * 2 ^ nat (e - e'))"
    using assms(2) by (simp add: powi2_nat e'_def)
  finally have "of_int (round_half_even (x / 2 powi e')) = x / 2 powi e'"
    by (simp only: round_half_even_of_int)
  then show ?thesis using False by (simp add: b64_round_def e'_def)
qed

lemma b64_round_exact:
  assumes "\<bar>m\<bar> < 2 ^ 53" "- 1074 \<le> e"
  shows "b64_round (of_int m * 2 powi e) = of_int m * 2 powi e"
proof (cases "m = 0")
  case True
  then show ?thesis by (simp add: b64_round_def)
next
  case False
  let ?x = "of_int m * (2::rat) powi e"
  have nz: "?x \<noteq> 0" using False by simp
  have "\<bar>?x\<bar> = of_int \<bar>m\<bar> * 2 powi e" by (simp add: abs_mult)
  also have "\<dots> < of_int (2 ^ 53) * 2 powi e"
    using assms(1) by (intro mult_strict_right_mono) (simp_all only: of_int_less_iff zero_less_power_int zero_less_numeral)
  also have "\<dots> = 2 powi (53 + e)"
    by (simp add: power_int_add)
  finally have "\<bar>?x\<bar> < 2 powi (53 + e)" .
  then have "b64_exp ?x \<le> e"
    by (rule b64_exp_le_strict [OF nz _ assms(2)]) simp
  then show ?thesis by (intro b64_round_grid [of _ m e]) simp_all
qed

lemma b64_round_of_int: "\<bar>m\<bar> < 2 ^ 53 \<Longrightarrow> b64_round (of_int m) = of_int m"
  using b64_round_exact [of m 0] by simp

lemma b64_round_error:
  assumes "x \<noteq> 0"
  shows "\<bar>b64_round x - x\<bar> \<le> 2 powi (b64_exp x - 1)"
proof -
  define e where "e = b64_exp x"
  define z where "z = x / 2 powi e"
  have p: "(0::rat) < 2 powi e" by simp
  have x: "x = z * 2 powi e" by (simp add: z_def)
  have "b64_round x = of_int (round_half_even z) * 2 powi e"
    using assms by (simp add: b64_round_def e_def z_def)
  then have "b64_round x - x = (of_int (round_half_even z) - z) * 2 powi e"
    by (subst (2) x) (simp only: left_diff_distrib)
  then have "\<bar>b64_round x - x\<bar> = \<bar>of_int (round_half_even z) - z\<bar> * 2 powi e"
    by (simp add: abs_mult)
  also have "\<dots> \<le> (1 / 2) * 2 powi e"
    using round_half_even_error [of z] by (intro mult_right_mono) simp_all
  also have "\<dots> = 2 powi (e - 1)"
    by (simp add: power_int_diff)
  finally show ?thesis by (simp add: e_def)
qed

lemma b64_round_error_bound:
  assumes "\<bar>x\<bar> < 2 powi K" "- 1021 \<le> K"
  shows "\<bar>b64_round x - x\<bar> \<le> 2 powi (K - 54)"
proof (cases "x = 0")
  case True
  then show ?thesis by (simp add: b64_round_def)
next
  case False
  have "b64_exp x \<le> K - 53"
    using assms(2) by (intro b64_exp_le_strict [OF False assms(1)]) simp_all
  then have "(2::rat) powi (b64_exp x - 1) \<le> 2 powi (K - 54)"
    by (simp add: powi2_le_iff)
  with b64_round_error [OF False] show ?thesis by linarith
qed

lemma b64_round_abs_le:
  assumes "\<bar>x\<bar> \<le> 2 powi K" "- 1074 \<le> K"
  shows "\<bar>b64_round x\<bar> \<le> 2 powi K"
proof (cases "x = 0")
  case True
  then show ?thesis by (simp add: b64_round_def)
next
  case False
  define e where "e = b64_exp x"
  define z where "z = x / 2 powi e"
  define N :: int where "N = 2 ^ nat (K - e)"
  have e: "e \<le> K" unfolding e_def by (rule b64_exp_le [OF False assms(1) assms(2)]) simp
  have p: "(0::rat) < 2 powi e" by simp
  have "\<bar>z\<bar> = \<bar>x\<bar> / 2 powi e" by (simp add: z_def)
  also have "\<dots> \<le> 2 powi K / 2 powi e"
    using assms(1) by (intro divide_right_mono) simp_all
  also have "\<dots> = 2 powi (K - e)" by (simp add: power_int_diff)
  also have "\<dots> = of_int N" using e by (simp add: powi2_nat N_def)
  finally have z: "z \<le> of_int N" "of_int (- N) \<le> z" by (simp_all add: abs_le_iff)
  have "round_half_even z \<le> N" "- N \<le> round_half_even z"
    using round_half_even_le [OF z(1)] round_half_even_ge [OF z(2)] by simp_all
  then have "\<bar>round_half_even z\<bar> \<le> N" by linarith
  then have "\<bar>of_int (round_half_even z) :: rat\<bar> \<le> of_int N"
    by (simp only: of_int_abs [symmetric] of_int_le_iff)
  then have "\<bar>of_int (round_half_even z) * 2 powi e :: rat\<bar> \<le> of_int N * 2 powi e"
    by (simp add: abs_mult)
  also have "of_int N * (2::rat) powi e = 2 powi K"
  proof -
    have "of_int N = (2::rat) powi (K - e)" using e by (simp add: N_def powi2_nat)
    then show ?thesis by (simp only: powi2_split [symmetric])
  qed
  finally show ?thesis using False by (simp add: b64_round_def e_def z_def)
qed

lemma b64_round_nonneg: "0 \<le> x \<Longrightarrow> 0 \<le> b64_round x"
proof -
  assume x: "0 \<le> x"
  have "(of_int 0 :: rat) \<le> x / 2 powi b64_exp x" using x by simp
  from round_half_even_ge [OF this] show ?thesis by (simp add: b64_round_def)
qed

lemma b64_round_nonpos: "x \<le> 0 \<Longrightarrow> b64_round x \<le> 0"
proof -
  assume x: "x \<le> 0"
  have "x / 2 powi b64_exp x \<le> (of_int 0 :: rat)" using x by (simp add: divide_le_0_iff)
  from round_half_even_le [OF this] show ?thesis by (simp add: b64_round_def mult_le_0_iff)
qed

lemma to_float_Fin:
  assumes "\<bar>x\<bar> \<le> 2 powi K" "- 1074 \<le> K" "K < 1024"
  shows "to_float x = Fin (b64_round x)"
proof -
  have "(2::rat) powi K < 2 powi 1024" using assms(3) by (simp only: powi2_less_iff)
  with b64_round_abs_le [OF assms(1,2)] have "\<bar>b64_round x\<bar> < 2 ^ 1024" by simp
  then show ?thesis by (simp add: to_float_def Let_def abs_less_iff)
qed

section \<open>Export\<close>

lemma foldl_max_length:
  "foldl (\<lambda>width row. max width (length row)) a rs = fold max (map length rs) a"
  by (induction rs arbitrary: a) (simp_all add: max.commute)

lemma image_width_eq:
  "image_width rs = (if rs = [] then 0 else Max (length ` set rs))"
proof (cases "rs = []")
  case True
  then show ?thesis by (simp add: image_width_def)
next
  case False
  have "image_width rs = Max (set (0 # map length rs))"
    unfolding image_width_def foldl_max_length Max.set_eq_fold ..
  also have "\<dots> = Max (length ` set rs)"
    using False by (simp add: Max_insert)
  finally show ?thesis using False by simp
qed

lemma concat_uniform_length:
  "\<forall>r\<in>set rs. length (f r) = w \<Longrightarrow> length (concat (map f rs)) = length rs * w"
  by (induction rs) auto

lemma concat_uniform_nth:
  "\<forall>r\<in>set rs. length (f r) = w \<Longrightarrow> y < length rs \<Longrightarrow> x < w \<Longrightarrow>
     concat (map f rs) ! (y * w + x) = f (rs ! y) ! x"
proof (induction rs arbitrary: y)
  case Nil
  then show ?case by simp
next
  case (Cons r rs)
  show ?case
  proof (cases y)
    case 0
    with Cons.prems show ?thesis by (simp add: nth_append)
  next
    case (Suc y')
    have "concat (map f (r # rs)) ! (y * w + x) = concat (map f rs) ! (y' * w + x)"
      using Cons.prems Suc by (simp add: nth_append)
    also have "\<dots> = f (rs ! y') ! x"
      using Cons.prems Suc by (intro Cons.IH) auto
    finally show ?thesis using Suc by simp
  qed
qed

text \<open>
  Claim C5.  For every sequence of rows, \<open>save_as_image\<close> builds a grid whose width is the
  maximum row length (0 when there are no rows) and whose height is the number of rows,
  flattened in row-major order with the rows in append order: the pixel at index
  \<open>y * width + x\<close> is element \<open>x\<close> of row \<open>y\<close> when \<open>x\<close> is below that row's length, and
  black \<open>(0,0,0)\<close> otherwise.
\<close>

theorem export_pixel_grid:
  fixes p :: PixelPalette and filename :: string
  defines "req \<equiv> fst (save_as_image filename p)"
  defines "w \<equiv> fst (img_size req)"
  defines "h \<equiv> snd (img_size req)"
  shows "w = (if rows p = [] then 0 else Max (length ` set (rows p)))
       \<and> h = length (rows p)
       \<and> length (img_data req) = w * h
       \<and> (\<forall>y < h. \<forall>x < w.
             img_data req ! (y * w + x) =
               (if x < length (rows p ! y) then rows p ! y ! x else (0, 0, 0)))"
proof -
  let ?w = "image_width (rows p)"
  let ?f = "\<lambda>row::color list. map (\<lambda>i. if i < length row then row ! i else (0, 0, 0)) [0..<?w]"
  have len: "\<forall>r\<in>set (rows p). length (?f r) = ?w" by simp
  have a: "length (image_pixels ?w (rows p)) = ?w * length (rows p)"
    unfolding image_pixels_def using concat_uniform_length [OF len] by (simp add: mult.commute)
  have b: "image_pixels ?w (rows p) ! (y * ?w + x) =
             (if x < length (rows p ! y) then rows p ! y ! x else (0, 0, 0))"
    if "y < length (rows p)" "x < ?w" for x y
    unfolding image_pixels_def using concat_uniform_nth [OF len that] that by simp
  have w: "w = ?w" and h: "h = length (rows p)" and d: "img_data req = image_pixels ?w (rows p)"
    by (simp_all add: w_def h_def req_def save_as_image_def Let_def)
  show ?thesis
    unfolding w h d using a b by (simp add: image_width_eq)
qed

text \<open>The theorem at rows of lengths 2, 5 and 3: a grid 5 wide and 3 high, padded with black.\<close>

theorem export_pixel_grid_witness:
  "img_size (fst (save_as_image ''palette.png''
      \<lparr>rows = [[(1, 1, 1), (2, 2, 2)],
                [(3, 3, 3), (4, 4, 4), (5, 5, 5), (6, 6, 6), (7, 7, 7)],
                [(8, 8, 8), (9, 9, 9), (10, 10, 10)]],
       hsv_range = (100, 100, 100)\<rparr>)) = (5, 3)
   \<and> img_data (fst (save_as_image ''palette.png''
      \<lparr>rows = [[(1, 1, 1), (2, 2, 2)],
                [(3, 3, 3), (4, 4, 4), (5, 5, 5), (6, 6, 6), (7, 7, 7)],
                [(8, 8, 8), (9, 9, 9), (10, 10, 10)]],
       hsv_range = (100, 100, 100)\<rparr>)) ! (2 * 5 + 3) = (0, 0, 0)"
proof -
  let ?p = "\<lparr>rows = [[(1, 1, 1), (2, 2, 2)],
                [(3, 3, 3), (4, 4, 4), (5, 5, 5), (6, 6, 6), (7, 7, 7)],
                [(8, 8, 8), (9, 9, 9), (10, 10, 10)]],
       hsv_range = (100, 100, 100)\<rparr> :: PixelPalette"
  have s: "img_size (fst (save_as_image ''palette.png'' ?p)) = (5, 3)"
    by (simp add: save_as_image_def image_width_def Let_def)
  have q: "img_data (fst (save_as_image ''palette.png'' ?p)) ! (y * 5 + x) =
        (if x < length (rows ?p ! y) then rows ?p ! y ! x else (0, 0, 0))"
    if "y < 3" "x < 5" for x y
    using export_pixel_grid [of "''palette.png''" ?p] that unfolding s by simp
  have "img_data (fst (save_as_image ''palette.png'' ?p)) ! (2 * 5 + 3) =
        (if 3 < length (rows ?p ! 2) then rows ?p ! 2 ! 3 else (0, 0, 0))"
    by (rule q) simp_all
  then show ?thesis using s by simp
qed

text \<open>
  Claim C8.  \<open>save_as_image\<close> leaves the palette (rows and range) as it was, so a second
  export with no append in between hands the same mode, size, pixel list, conversion and
  file name to the imaging library.
\<close>

theorem export_pure:
  "snd (save_as_image filename p) = p
   \<and> fst (save_as_image filename (snd (save_as_image filename p))) = fst (save_as_image filename p)"
  by (simp add: save_as_image_def Let_def)

section \<open>The arithmetic of the program on bounded numbers\<close>

lemma ebind_Inr [simp]: "ebind (Inr x) f = f x"
  by (simp add: ebind_def)

lemma ebind_Inl [simp]: "ebind (Inl e) f = Inl e"
  by (simp add: ebind_def)

lemma b64_round_le_int:
  assumes "0 \<le> x" "x \<le> of_int m" "m < 2 ^ 53"
  shows "b64_round x \<le> of_int m"
proof (cases "x = 0")
  case True
  with assms show ?thesis by (simp add: b64_round_def)
next
  case False
  with assms have x: "0 < x" by simp
  define e where "e = b64_exp x"
  have e: "e \<le> 0"
  proof -
    have "x < of_int (2 ^ 53)" using assms(2,3)
      by (meson of_int_less_iff le_less_trans)
    then have "\<bar>x\<bar> < 2 powi 53" using x by simp
    then show ?thesis unfolding e_def by (rule b64_exp_le_strict [OF False]) simp_all
  qed
  define M where "M = m * 2 ^ nat (- e)"
  have M: "of_int m = of_int M * (2::rat) powi e"
  proof -
    have "(of_int M :: rat) = of_int m * 2 powi (- e)" using e by (simp add: M_def powi2_nat)
    then show ?thesis by (simp add: power_int_minus)
  qed
  have "x / 2 powi e \<le> of_int m / 2 powi e"
    using assms(2) by (intro divide_right_mono) simp_all
  also have "\<dots> = of_int M" by (simp add: M)
  finally have "round_half_even (x / 2 powi e) \<le> M" by (rule round_half_even_le)
  then have "(of_int (round_half_even (x / 2 powi e)) :: rat) \<le> of_int M"
    by (simp only: of_int_le_iff)
  then have "of_int (round_half_even (x / 2 powi e)) * 2 powi e \<le> of_int M * (2::rat) powi e"
    by (intro mult_right_mono) simp_all
  then show ?thesis using False by (simp add: b64_round_def e_def [symmetric] M [symmetric])
qed

lemma int_truediv_Fin:
  assumes "b \<noteq> 0" "\<bar>of_int a / of_int b\<bar> \<le> (2::rat) powi K" "- 1074 \<le> K" "K < 1024"
  shows "int_truediv a b = Inr (Fin (b64_round (of_int a / of_int b)))"
  using assms(1) to_float_Fin [OF assms(2,3,4)] by (simp add: int_truediv_def)

lemma float_of_int_Fin:
  assumes "\<bar>a\<bar> \<le> 2 ^ 1020"
  shows "float_of_int a = Inr (Fin (b64_round (of_int a)))"
    and "\<bar>b64_round (of_int a)\<bar> \<le> 2 powi 1020"
proof -
  have "\<bar>of_int a :: rat\<bar> \<le> of_int (2 ^ 1020)"
    using assms by (simp only: of_int_abs [symmetric] of_int_le_iff)
  then have a: "\<bar>of_int a :: rat\<bar> \<le> 2 powi 1020" by simp
  from to_float_Fin [OF a] show "float_of_int a = Inr (Fin (b64_round (of_int a)))"
    by (simp add: float_of_int_def)
  from b64_round_abs_le [OF a] show "\<bar>b64_round (of_int a)\<bar> \<le> 2 powi 1020" by simp
qed

lemma float_of_int_one: "float_of_int 1 = Inr (Fin 1)"
  using float_of_int_Fin(1) [of 1] b64_round_of_int [of 1] by simp

lemma abs_mult_le_unit:
  fixes x u :: rat
  assumes "\<bar>x\<bar> \<le> B" "\<bar>u\<bar> \<le> 1"
  shows "\<bar>x * u\<bar> \<le> B"
proof -
  have "\<bar>x * u\<bar> = \<bar>x\<bar> * \<bar>u\<bar>" by (simp add: abs_mult)
  also have "\<dots> \<le> B * 1" using assms by (intro mult_mono) auto
  finally show ?thesis by simp
qed

lemma b64_round_unit:
  assumes "0 \<le> t" "t \<le> 1"
  shows "0 \<le> b64_round t" "b64_round t \<le> 1" "\<bar>b64_round t\<bar> \<le> 1"
proof -
  show "0 \<le> b64_round t" using assms(1) by (rule b64_round_nonneg)
  have "\<bar>t\<bar> \<le> 2 powi 0" using assms by simp
  from b64_round_abs_le [OF this] show "\<bar>b64_round t\<bar> \<le> 1" by simp
  then show "b64_round t \<le> 1" by linarith
qed

text \<open>\<open>mix\<close> returns a finite float whenever its integer arguments are far from the overflow
  threshold and the ratio lies in the unit interval.\<close>

lemma mix_Fin:
  assumes a: "\<bar>a\<bar> \<le> 2 ^ 1020" and b: "\<bar>b\<bar> \<le> 2 ^ 1020" and t: "0 \<le> t" "t \<le> 1"
  shows "mix a b (Fin t) = Inr (Fin (mix_value a b t))"
proof -
  define u where "u = b64_round (1 - t)"
  define fa where "fa = b64_round (of_int a)"
  define fb where "fb = b64_round (of_int b)"
  have "\<bar>1 + - t\<bar> \<le> 2 powi 0" using t by simp
  from to_float_Fin [OF this] have sub: "int_sub_float 1 (Fin t) = Inr (Fin u)"
    by (simp add: int_sub_float_def float_of_int_one fsub_def u_def)
  have u: "\<bar>u\<bar> \<le> 1" unfolding u_def using t by (intro b64_round_unit) simp_all
  have t': "\<bar>t\<bar> \<le> 1" using t by simp
  note fa = float_of_int_Fin [OF a, folded fa_def] and fb = float_of_int_Fin [OF b, folded fb_def]
  have pa: "\<bar>fa * u\<bar> \<le> 2 powi 1020" using fa(2) u by (rule abs_mult_le_unit)
  have pb: "\<bar>fb * t\<bar> \<le> 2 powi 1020" using fb(2) t' by (rule abs_mult_le_unit)
  have ma: "int_mul_float a (Fin u) = Inr (Fin (b64_round (fa * u)))"
    using to_float_Fin [OF pa] by (simp add: int_mul_float_def fa(1))
  have mb: "int_mul_float b (Fin t) = Inr (Fin (b64_round (fb * t)))"
    using to_float_Fin [OF pb] by (simp add: int_mul_float_def fb(1))
  have "\<bar>b64_round (fa * u)\<bar> \<le> 2 powi 1020" "\<bar>b64_round (fb * t)\<bar> \<le> 2 powi 1020"
    using b64_round_abs_le [OF pa] b64_round_abs_le [OF pb] by simp_all
  then have "\<bar>b64_round (fa * u) + b64_round (fb * t)\<bar> \<le> 2 powi 1020 + 2 powi 1020"
    by linarith
  also have "\<dots> = (2::rat) powi 1021" by simp
  finally have s: "\<bar>b64_round (fa * u) + b64_round (fb * t)\<bar> \<le> 2 powi 1021" .
  have "mix a b (Fin t) = Inr (Fin (b64_round (b64_round (fa * u) + b64_round (fb * t))))"
    using to_float_Fin [OF s] by (simp add: mix_def sub ma mb)
  then show ?thesis by (simp add: mix_value_def u_def fa_def fb_def)
qed

lemma mix_colors_Fin:
  assumes "\<bar>fst c1\<bar> \<le> 2 ^ 1020" "\<bar>fst (snd c1)\<bar> \<le> 2 ^ 1020" "\<bar>snd (snd c1)\<bar> \<le> 2 ^ 1020"
    and "\<bar>fst c2\<bar> \<le> 2 ^ 1020" "\<bar>fst (snd c2)\<bar> \<le> 2 ^ 1020" "\<bar>snd (snd c2)\<bar> \<le> 2 ^ 1020"
    and "0 \<le> t" "t \<le> 1"
  shows "mix_colors c1 c2 (Fin t) =
           Inr (round_half_even (mix_value (fst c1) (fst c2) t),
                round_half_even (mix_value (fst (snd c1)) (fst (snd c2)) t),
                round_half_even (mix_value (snd (snd c1)) (snd (snd c2)) t))"
proof -
  note h = mix_Fin [OF assms(1) assms(4) assms(7) assms(8)]
    and s = mix_Fin [OF assms(2) assms(5) assms(7) assms(8)]
    and v = mix_Fin [OF assms(3) assms(6) assms(7) assms(8)]
  show ?thesis by (simp add: mix_colors_def h s v)
qed

lemma gradient_ratio_unit:
  assumes "0 \<le> i" "i < n"
  shows "int_truediv (i + 1) (n + 1) = Inr (Fin (gradient_ratio n i))"
    and "0 \<le> gradient_ratio n i" and "gradient_ratio n i \<le> 1"
proof -
  let ?q = "of_int (i + 1) / of_int (n + 1) :: rat"
  have q: "0 \<le> ?q" "?q \<le> 1" using assms by (simp_all add: divide_le_eq_1)
  have "\<bar>?q\<bar> = ?q" using q(1) by (rule abs_of_nonneg)
  with q(2) have "\<bar>?q\<bar> \<le> 2 powi 0" by (simp only: power_int_0_right)
  from int_truediv_Fin [OF _ this] assms
  show "int_truediv (i + 1) (n + 1) = Inr (Fin (gradient_ratio n i))"
    by (simp add: gradient_ratio_def)
  show "0 \<le> gradient_ratio n i" "gradient_ratio n i \<le> 1"
    unfolding gradient_ratio_def using q by (rule b64_round_unit)+
qed

lemma gradient_color_Fin:
  assumes "\<bar>fst c1\<bar> \<le> 2 ^ 1020" "\<bar>fst (snd c1)\<bar> \<le> 2 ^ 1020" "\<bar>snd (snd c1)\<bar> \<le> 2 ^ 1020"
    and "\<bar>fst c2\<bar> \<le> 2 ^ 1020" "\<bar>fst (snd c2)\<bar> \<le> 2 ^ 1020" "\<bar>snd (snd c2)\<bar> \<le> 2 ^ 1020"
    and "0 \<le> i" "i < n"
  shows "gradient_color c1 c2 n i = Inr (interior_color c1 c2 n i)"
proof -
  note r = gradient_ratio_unit [OF assms(7,8)]
  note m = mix_colors_Fin [OF assms(1-6) r(2) r(3)]
  show ?thesis by (simp add: gradient_color_def interior_color_def r(1) m)
qed

section \<open>The loop of add\_gradient\<close>

lemma gradient_loop_step:
  "gradient_loop c1 c2 n (i # idxs) new_row =
     ebind (gradient_color c1 c2 n i) (\<lambda>c. gradient_loop c1 c2 n idxs (new_row @ [c]))"
  by (simp add: gradient_color_def ebind_def split: sum.splits)

lemma gradient_loop_map:
  assumes "\<And>i. i \<in> set idxs \<Longrightarrow> gradient_color c1 c2 n i = Inr (g i)"
  shows "gradient_loop c1 c2 n idxs new_row = Inr (new_row @ map g idxs)"
  using assms
proof (induction idxs arbitrary: new_row)
  case Nil
  show ?case by simp
next
  case (Cons i idxs)
  have "gradient_color c1 c2 n i = Inr (g i)" by (rule Cons.prems) simp
  moreover have "gradient_loop c1 c2 n idxs (new_row @ [g i]) = Inr ((new_row @ [g i]) @ map g idxs)"
    by (rule Cons.IH) (simp add: Cons.prems)
  ultimately show ?case by (simp only: gradient_loop_step ebind_Inr) simp
qed

lemma gradient_loop_Inr:
  assumes "gradient_loop c1 c2 n idxs new_row = Inr row"
  shows "\<exists>cs. row = new_row @ cs \<and> length cs = length idxs
            \<and> (\<forall>k < length idxs. gradient_color c1 c2 n (idxs ! k) = Inr (cs ! k))"
  using assms
proof (induction idxs arbitrary: new_row)
  case Nil
  then show ?case by simp
next
  case (Cons i idxs)
  from Cons.prems obtain c where c: "gradient_color c1 c2 n i = Inr c"
    and r: "gradient_loop c1 c2 n idxs (new_row @ [c]) = Inr row"
    by (cases "gradient_color c1 c2 n i") (simp_all only: gradient_loop_step ebind_Inl ebind_Inr sum.distinct)
  from Cons.IH [OF r] obtain cs where cs: "row = (new_row @ [c]) @ cs" "length cs = length idxs"
    "\<forall>k < length idxs. gradient_color c1 c2 n (idxs ! k) = Inr (cs ! k)" by blast
  have "\<forall>k < length (i # idxs). gradient_color c1 c2 n ((i # idxs) ! k) = Inr ((c # cs) ! k)"
    using c cs(3) by (auto simp: nth_Cons split: nat.splits)
  with cs(1,2) show ?case by (intro exI [of _ "c # cs"]) simp
qed

section \<open>The range conversion\<close>

lemma channel_zero_range: "ebind (int_truediv (255 * c) 0) py_round = Inl ZeroDivisionError"
  by (simp add: int_truediv_def)

lemma channel_bounded:
  assumes "r \<noteq> 0" "\<bar>c\<bar> \<le> 2 ^ 1000"
  shows "ebind (int_truediv (255 * c) r) py_round = Inr (canonical_channel c r)"
proof -
  have "1 \<le> \<bar>r\<bar>" using assms(1) by linarith
  then have "(of_int 1 :: rat) \<le> of_int \<bar>r\<bar>" by (simp only: of_int_le_iff)
  then have r: "1 \<le> \<bar>of_int r :: rat\<bar>" by simp
  have "\<bar>255 * c\<bar> \<le> 255 * 2 ^ 1000" using assms(2) by (simp add: abs_mult)
  also have "\<dots> \<le> (2::int) ^ 1008" by simp
  finally have "\<bar>of_int (255 * c) :: rat\<bar> \<le> of_int (2 ^ 1008)"
    by (simp only: of_int_abs [symmetric] of_int_le_iff)
  then have c: "\<bar>of_int (255 * c) :: rat\<bar> \<le> 2 powi 1008" by simp
  have "\<bar>of_int (255 * c) / of_int r :: rat\<bar> = \<bar>of_int (255 * c)\<bar> / \<bar>of_int r\<bar>" by simp
  also have "\<dots> \<le> \<bar>of_int (255 * c)\<bar> / 1"
    using r by (intro divide_left_mono) simp_all
  finally have "\<bar>of_int (255 * c) / of_int r :: rat\<bar> \<le> 2 powi 1008" using c by simp
  from int_truediv_Fin [OF assms(1) this] show ?thesis by (simp add: canonical_channel_def)
qed

lemma channel_in_range:
  assumes "0 < r" "0 \<le> c" "c \<le> r"
  shows "ebind (int_truediv (255 * c) r) py_round = Inr (canonical_channel c r)"
    and "0 \<le> canonical_channel c r" and "canonical_channel c r \<le> 255"
proof -
  let ?x = "of_int (255 * c) / of_int r :: rat"
  have x0: "0 \<le> ?x" using assms by simp
  have "(of_int (255 * c) :: rat) \<le> of_int (255 * r)"
    using assms by simp
  then have x1: "?x \<le> of_int 255" using assms(1) by (simp add: divide_le_eq)
  have "\<bar>?x\<bar> = ?x" using x0 by (rule abs_of_nonneg)
  with x1 have "\<bar>?x\<bar> \<le> 2 powi 8" by simp
  from int_truediv_Fin [OF _ this] assms(1)
  show "ebind (int_truediv (255 * c) r) py_round = Inr (canonical_channel c r)"
    by (simp add: canonical_channel_def)
  have "(of_int 0 :: rat) \<le> b64_round ?x" using b64_round_nonneg [OF x0] by simp
  then show "0 \<le> canonical_channel c r"
    unfolding canonical_channel_def by (rule round_half_even_ge)
  have "b64_round ?x \<le> of_int 255" using x0 x1 by (rule b64_round_le_int) simp
  then show "canonical_channel c r \<le> 255"
    unfolding canonical_channel_def by (rule round_half_even_le)
qed

lemma hsv_adjust_range_bounded:
  assumes "fst r \<noteq> 0" "fst (snd r) \<noteq> 0" "snd (snd r) \<noteq> 0"
    and "\<bar>fst c\<bar> \<le> 2 ^ 1000" "\<bar>fst (snd c)\<bar> \<le> 2 ^ 1000" "\<bar>snd (snd c)\<bar> \<le> 2 ^ 1000"
  shows "hsv_adjust_range c r =
           Inr (canonical_channel (fst c) (fst r),
                canonical_channel (fst (snd c)) (fst (snd r)),
                canonical_channel (snd (snd c)) (snd (snd r)))"
proof -
  note h = channel_bounded [OF assms(1) assms(4)]
    and s = channel_bounded [OF assms(2) assms(5)]
    and v = channel_bounded [OF assms(3) assms(6)]
  show ?thesis by (simp add: hsv_adjust_range_def h s v)
qed

lemma hsv_adjust_range_in_range:
  assumes "0 < fst r" "0 < fst (snd r)" "0 < snd (snd r)"
    and "0 \<le> fst c" "fst c \<le> fst r" "0 \<le> fst (snd c)" "fst (snd c) \<le> fst (snd r)"
    and "0 \<le> snd (snd c)" "snd (snd c) \<le> snd (snd r)"
  shows "hsv_adjust_range c r =
           Inr (canonical_channel (fst c) (fst r),
                canonical_channel (fst (snd c)) (fst (snd r)),
                canonical_channel (snd (snd c)) (snd (snd r)))"
  using assms by (simp add: hsv_adjust_range_def channel_in_range(1))

text \<open>A zero channel in the range makes the conversion raise, whatever the colour.\<close>

lemma hsv_adjust_range_zero_fails:
  assumes "fst r = 0 \<or> fst (snd r) = 0 \<or> snd (snd r) = 0"
  shows "\<exists>e. hsv_adjust_range c r = Inl e"
proof -
  obtain rh rs rv where r: "r = (rh, rs, rv)" by (cases r) auto
  show ?thesis
  proof (cases "ebind (int_truediv (255 * fst c) rh) py_round")
    case (Inl e)
    then show ?thesis by (simp add: hsv_adjust_range_def r)
  next
    case h: (Inr h)
    then have rh: "rh \<noteq> 0" by (auto simp: channel_zero_range)
    show ?thesis
    proof (cases "ebind (int_truediv (255 * fst (snd c)) rs) py_round")
      case (Inl e)
      then show ?thesis by (simp add: hsv_adjust_range_def r h)
    next
      case s: (Inr s)
      then have "rs \<noteq> 0" by (auto simp: channel_zero_range)
      with rh assms have "rv = 0" by (simp add: r)
      then show ?thesis by (simp add: hsv_adjust_range_def r h s channel_zero_range)
    qed
  qed
qed

lemma hsv_adjust_range_zero_division:
  assumes "fst r = 0 \<or> fst (snd r) = 0 \<or> snd (snd r) = 0"
    and "\<bar>fst c\<bar> \<le> 2 ^ 1000" "\<bar>fst (snd c)\<bar> \<le> 2 ^ 1000" "\<bar>snd (snd c)\<bar> \<le> 2 ^ 1000"
  shows "hsv_adjust_range c r = Inl ZeroDivisionError"
proof -
  obtain rh rs rv where r: "r = (rh, rs, rv)" by (cases r) auto
  show ?thesis
  proof (cases "rh = 0")
    case True
    then show ?thesis by (simp add: hsv_adjust_range_def r channel_zero_range)
  next
    case rh: False
    show ?thesis
    proof (cases "rs = 0")
      case True
      then show ?thesis
        by (simp add: hsv_adjust_range_def r channel_zero_range channel_bounded [OF rh assms(2)])
    next
      case False
      with rh assms(1) have "rv = 0" by (simp add: r)
      then show ?thesis
        by (simp add: hsv_adjust_range_def r channel_zero_range
            channel_bounded [OF rh assms(2)] channel_bounded [OF False assms(3)])
    qed
  qed
qed

section \<open>Evaluating the conversion at given numbers\<close>

lemma canonical_channel_eqI:
  assumes r: "0 < r" "r \<le> 2 ^ 20" and k: "\<bar>k\<bar> \<le> 2 ^ 20"
    and lo: "(2 * k - 1) * r < 510 * c" and hi: "510 * c < (2 * k + 1) * r"
  shows "canonical_channel c r = k"
proof -
  define x :: rat where "x = of_int (255 * c) / of_int r"
  define g :: rat where "g = 1 / (2 * of_int r)"
  have rp: "(0::rat) < of_int r" using r(1) by simp
  have "(of_int r :: rat) \<le> of_int (2 ^ 20)" using r(2) by (simp only: of_int_le_iff)
  then have r20: "(of_int r :: rat) \<le> 2 ^ 20" by simp
  have g: "1 / 2 ^ 21 \<le> g"
    unfolding g_def using rp r20 by (intro divide_left_mono mult_pos_pos) simp_all
  have "(2 * k - 1) * r + 1 \<le> 510 * c" using lo by simp
  then have "(of_int ((2 * k - 1) * r + 1) :: rat) \<le> of_int (510 * c)"
    by (simp only: of_int_le_iff)
  then have "(2 * of_int k - 1) * of_int r + 1 \<le> 2 * (x * of_int r)"
    using rp by (simp add: x_def)
  then have "(of_int k - 1 / 2) * (2 * of_int r) + 1 \<le> x * (2 * of_int r)"
    by (simp add: algebra_simps)
  then have "((of_int k - 1 / 2) * (2 * of_int r) + 1) / (2 * of_int r) \<le> x"
    using rp by (simp add: pos_divide_le_eq)
  then have xlo: "of_int k - 1 / 2 + g \<le> x"
    using rp by (simp add: g_def add_divide_distrib)
  have "510 * c + 1 \<le> (2 * k + 1) * r" using hi by simp
  then have "(of_int (510 * c + 1) :: rat) \<le> of_int ((2 * k + 1) * r)"
    by (simp only: of_int_le_iff)
  then have "2 * (x * of_int r) + 1 \<le> (2 * of_int k + 1) * of_int r"
    using rp by (simp add: x_def)
  then have "x * (2 * of_int r) + 1 \<le> (of_int k + 1 / 2) * (2 * of_int r)"
    by (simp add: algebra_simps)
  then have "(x * (2 * of_int r) + 1) / (2 * of_int r) \<le> of_int k + 1 / 2"
    using rp by (simp add: pos_divide_le_eq)
  then have xhi: "x + g \<le> of_int k + 1 / 2"
    using rp by (simp add: g_def add_divide_distrib)
  have "(of_int \<bar>k\<bar> :: rat) \<le> of_int (2 ^ 20)" using k by (simp only: of_int_le_iff)
  then have k20: "\<bar>of_int k :: rat\<bar> \<le> 2 ^ 20" by simp
  have gp: "0 < g" unfolding g_def using rp by simp
  have "\<bar>x\<bar> < 2 ^ 20 + 1" using xlo xhi gp k20 by linarith
  also have "\<dots> < (2::rat) powi 21" by simp
  finally have "\<bar>b64_round x - x\<bar> \<le> 2 powi (21 - 54)"
    by (rule b64_round_error_bound) simp
  also have "\<dots> < 1 / 2 ^ 21" by simp
  finally have "\<bar>b64_round x - x\<bar> < g" using g by linarith
  then have "of_int k - 1 / 2 < b64_round x" "b64_round x < of_int k + 1 / 2"
    using xlo xhi by linarith+
  then have "round_half_even (b64_round x) = k" by (rule round_half_even_eqI)
  then show ?thesis by (simp add: canonical_channel_def x_def)
qed

lemma round_half_even_half: "round_half_even (of_int k + 1 / 2) = (if even k then k else k + 1)"
proof -
  have "\<lfloor>of_int k + 1 / 2 :: rat\<rfloor> = k" by linarith
  then show ?thesis by (simp add: round_half_even_def Let_def)
qed

lemma canonical_channel_tie:
  assumes "r \<noteq> 0" "510 * c = (2 * k + 1) * r" "\<bar>2 * k + 1\<bar> < 2 ^ 53"
  shows "canonical_channel c r = (if even k then k else k + 1)"
proof -
  have "(of_int (510 * c) :: rat) = of_int ((2 * k + 1) * r)" using assms(2) by simp
  then have "2 * (of_int (255 * c) :: rat) = (2 * of_int k + 1) * of_int r" by simp
  then have "(of_int (255 * c) :: rat) / of_int r = (2 * of_int k + 1) / 2"
    using assms(1) by (simp add: field_simps)
  then have x: "(of_int (255 * c) :: rat) / of_int r = of_int (2 * k + 1) * 2 powi (- 1)"
    by simp
  have "b64_round (of_int (2 * k + 1) * 2 powi (- 1)) = of_int (2 * k + 1) * 2 powi (- 1)"
    using assms(3) by (intro b64_round_exact) simp_all
  moreover have "of_int (2 * k + 1) * 2 powi (- 1) = (of_int k + 1 / 2 :: rat)"
    by (simp add: field_simps)
  ultimately show ?thesis
    by (simp only: canonical_channel_def x round_half_even_half)
qed

section \<open>Shade rows\<close>

lemma add_shades_Inr:
  assumes "hsv_adjust_range base_color (hsv_range p) = Inr b"
    and "hsv_adjust_range shift (hsv_range p) = Inr s"
  shows "add_shades base_color shift d u p =
           (None, p\<lparr>rows := rows p @
              [map (\<lambda>i. (hue b + hue s * i, saturation b + saturation s * i, val b + val s * i))
                 [- d..u]]\<rparr>)"
  using assms by (simp add: add_shades_def shades_row_def hue_def saturation_def val_def)

text \<open>
  Claim C3.  When the base colour and the shift have canonical values \<open>b\<close> and \<open>s\<close> and the
  counts are not negative, \<open>add_shades\<close> appends exactly one row: the colours
  \<open>b + s * i\<close> for \<open>i\<close> from \<open>-number_down\<close> to \<open>number_up\<close> in increasing order, computed on
  unbounded integers with no clamping or wraparound.  The row has
  \<open>number_down + number_up + 1\<close> elements, the one at index \<open>number_down\<close> is \<open>b\<close>, and
  consecutive elements differ by \<open>s\<close> in every channel.
\<close>

theorem add_shades_row:
  assumes b: "hsv_adjust_range base_color (hsv_range p) = Inr b"
    and s: "hsv_adjust_range shift (hsv_range p) = Inr s"
    and d: "0 \<le> d" and u: "0 \<le> u"
  shows "\<exists>row. add_shades base_color shift d u p = (None, p\<lparr>rows := rows p @ [row]\<rparr>)
           \<and> row = map (\<lambda>i. (hue b + hue s * i, saturation b + saturation s * i, val b + val s * i))
                     [- d..u]
           \<and> length row = nat (d + u + 1)
           \<and> row ! nat d = b
           \<and> (\<forall>k. Suc k < length row \<longrightarrow>
                  hue (row ! Suc k) - hue (row ! k) = hue s
                \<and> saturation (row ! Suc k) - saturation (row ! k) = saturation s
                \<and> val (row ! Suc k) - val (row ! k) = val s)"
proof -
  define f where "f = (\<lambda>i. (hue b + hue s * i, saturation b + saturation s * i, val b + val s * i))"
  define row where "row = map f [- d..u]"
  have len: "length row = nat (d + u + 1)" by (simp add: row_def)
  have nth: "row ! k = f (- d + int k)" if "k < length row" for k
    using that by (simp add: row_def)
  have mid: "row ! nat d = b"
  proof -
    have "nat d < length row" using d u by (simp add: len)
    from nth [OF this] show ?thesis using d by (simp add: f_def hue_def saturation_def val_def)
  qed
  have step: "hue (row ! Suc k) - hue (row ! k) = hue s
                \<and> saturation (row ! Suc k) - saturation (row ! k) = saturation s
                \<and> val (row ! Suc k) - val (row ! k) = val s" if "Suc k < length row" for k
  proof -
    from that have "k < length row" by simp
    from nth [OF this] nth [OF that] show ?thesis
      by (simp add: f_def hue_def saturation_def val_def algebra_simps)
  qed
  have "add_shades base_color shift d u p = (None, p\<lparr>rows := rows p @ [row]\<rparr>)"
    unfolding row_def f_def by (rule add_shades_Inr [OF b s])
  with len mid step show ?thesis unfolding row_def f_def by blast
qed

lemma canonical_example_base:
  "hsv_adjust_range (138, 32, 77) (360, 100, 100) = Inr (98, 82, 196)"
proof -
  have "canonical_channel 138 360 = 98" by (rule canonical_channel_eqI) simp_all
  moreover have "canonical_channel 32 100 = 82" by (rule canonical_channel_eqI) simp_all
  moreover have "canonical_channel 77 100 = 196" by (rule canonical_channel_eqI) simp_all
  ultimately show ?thesis by (simp add: hsv_adjust_range_in_range)
qed

lemma canonical_example_shift:
  "hsv_adjust_range (- 10, - 10, 25) (360, 100, 100) = Inr (- 7, - 26, 64)"
proof -
  have "canonical_channel (- 10) 360 = - 7" by (rule canonical_channel_eqI) simp_all
  moreover have "canonical_channel (- 10) 100 = - 26"
    using canonical_channel_tie [of 100 "- 10" "- 26"] by simp
  moreover have "canonical_channel 25 100 = 64" by (rule canonical_channel_eqI) simp_all
  moreover have "hsv_adjust_range (- 10, - 10, 25) (360, 100, 100) =
      Inr (canonical_channel (- 10) 360, canonical_channel (- 10) 100, canonical_channel 25 100)"
    using hsv_adjust_range_bounded [of "(360, 100, 100)" "(- 10, - 10, 25)"] by simp
  ultimately show ?thesis by simp
qed

text \<open>The theorem at the third call of the script: base \<open>(138,32,77)\<close>, shift \<open>(-10,-10,25)\<close>,
  two shades down and one up, in the range \<open>(360,100,100)\<close>.  The last value channel, 260,
  lies outside \<open>[0,255]\<close>.\<close>

theorem add_shades_row_witness:
  "add_shades (138, 32, 77) (- 10, - 10, 25) 2 1 (init (360, 100, 100)) =
     (None, \<lparr>rows = [[(112, 134, 68), (105, 108, 132), (98, 82, 196), (91, 56, 260)]],
             hsv_range = (360, 100, 100)\<rparr>)"
proof -
  have b: "hsv_adjust_range (138, 32, 77) (hsv_range (init (360, 100, 100))) = Inr (98, 82, 196)"
    by (simp add: init_def canonical_example_base)
  have s: "hsv_adjust_range (- 10, - 10, 25) (hsv_range (init (360, 100, 100))) = Inr (- 7, - 26, 64)"
    by (simp add: init_def canonical_example_shift)
  have i: "[- 2..1] = [- 2, - 1, 0, 1 :: int]" by (simp add: upto.simps)
  from add_shades_row [OF b s, of 2 1] show ?thesis
    by (simp add: i init_def hue_def saturation_def val_def)
qed

section \<open>Gradient rows\<close>

lemma set_upto_bounds: "i \<in> set [0..n - 1] \<Longrightarrow> 0 \<le> i \<and> i < (n::int)"
  by simp

lemma abs_plus_255_bound:
  assumes "\<bar>h::int\<bar> \<le> 2 ^ 1000"
  shows "\<bar>h + 255\<bar> \<le> 2 ^ 1020"
proof -
  have "(2::int) ^ 1000 + 255 \<le> 2 ^ 1000 + 2 ^ 1000" by simp
  also have "\<dots> \<le> (2::int) ^ 1020" by simp
  finally show ?thesis using assms by linarith
qed

lemma abs_bound_weaken:
  assumes "\<bar>h::int\<bar> \<le> 2 ^ 1000"
  shows "\<bar>h\<bar> \<le> 2 ^ 1020"
proof -
  have "(2::int) ^ 1000 \<le> 2 ^ 1020" by simp
  with assms show ?thesis by linarith
qed

text \<open>
  The row computed by the body of \<open>add_gradient\<close> when both conversions succeed with
  canonical channels of magnitude at most \<open>2^1000\<close>: the first endpoint, one interior
  colour per index, the second endpoint.  Nothing is assumed about the sign of
  \<open>number_in_between\<close>: a negative count gives an empty index list.
\<close>

lemma gradient_row_Fin:
  assumes a: "hsv_adjust_range color1 rng = Inr a" and b: "hsv_adjust_range color2 rng = Inr b"
    and ba: "\<bar>fst a\<bar> \<le> 2 ^ 1000" "\<bar>fst (snd a)\<bar> \<le> 2 ^ 1000" "\<bar>snd (snd a)\<bar> \<le> 2 ^ 1000"
    and bb: "\<bar>fst b\<bar> \<le> 2 ^ 1000" "\<bar>fst (snd b)\<bar> \<le> 2 ^ 1000" "\<bar>snd (snd b)\<bar> \<le> 2 ^ 1000"
  shows "gradient_row rng color1 color2 n hue_ascending =
           Inr (a # map (interior_color
                   (if \<not> hue_ascending then (fst a + 255, fst (snd a), snd (snd a)) else a) b n)
                  [0..n - 1] @ [b])"
proof -
  define s where "s = (if \<not> hue_ascending then (fst a + 255, fst (snd a), snd (snd a)) else a)"
  have s1: "\<bar>fst s\<bar> \<le> 2 ^ 1020"
    using abs_plus_255_bound [OF ba(1)] abs_bound_weaken [OF ba(1)] by (simp add: s_def)
  have s2: "\<bar>fst (snd s)\<bar> \<le> 2 ^ 1020" using abs_bound_weaken [OF ba(2)] by (simp add: s_def)
  have s3: "\<bar>snd (snd s)\<bar> \<le> 2 ^ 1020" using abs_bound_weaken [OF ba(3)] by (simp add: s_def)
  note b' = abs_bound_weaken [OF bb(1)] abs_bound_weaken [OF bb(2)] abs_bound_weaken [OF bb(3)]
  have "gradient_color s b n i = Inr (interior_color s b n i)" if "i \<in> set [0..n - 1]" for i
  proof -
    from set_upto_bounds [OF that] have i: "0 \<le> i" "i < n" by simp_all
    show ?thesis by (rule gradient_color_Fin [OF s1 s2 s3 b' i])
  qed
  then have "gradient_loop s b n [0..n - 1] [a] = Inr ([a] @ map (interior_color s b n) [0..n - 1])"
    by (rule gradient_loop_map)
  then show ?thesis
    by (simp add: gradient_row_def a b s_def [symmetric])
qed

lemma add_gradient_Fin:
  assumes a: "hsv_adjust_range color1 (hsv_range p) = Inr a"
    and b: "hsv_adjust_range color2 (hsv_range p) = Inr b"
    and ba: "\<bar>fst a\<bar> \<le> 2 ^ 1000" "\<bar>fst (snd a)\<bar> \<le> 2 ^ 1000" "\<bar>snd (snd a)\<bar> \<le> 2 ^ 1000"
    and bb: "\<bar>fst b\<bar> \<le> 2 ^ 1000" "\<bar>fst (snd b)\<bar> \<le> 2 ^ 1000" "\<bar>snd (snd b)\<bar> \<le> 2 ^ 1000"
  shows "add_gradient color1 color2 n hue_ascending p =
           (None, p\<lparr>rows := rows p @
              [a # map (interior_color
                   (if \<not> hue_ascending then (fst a + 255, fst (snd a), snd (snd a)) else a) b n)
                  [0..n - 1] @ [b]]\<rparr>)"
  by (simp add: add_gradient_def gradient_row_Fin [OF a b ba bb])

lemma gradient_row_shape:
  fixes a b :: color and g :: "int \<Rightarrow> color"
  assumes "0 \<le> n"
  defines "row \<equiv> a # map g [0..n - 1] @ [b]"
  shows "length row = nat (n + 2)" and "row ! 0 = a" and "row ! nat (n + 1) = b"
    and "\<And>i. 0 \<le> i \<Longrightarrow> i < n \<Longrightarrow> row ! nat (i + 1) = g i"
proof -
  have l: "length (map g [0..n - 1]) = nat n" by simp
  show "length row = nat (n + 2)" using assms(1) by (simp add: row_def nat_add_distrib)
  show "row ! 0 = a" by (simp add: row_def)
  have "row ! nat (n + 1) = (map g [0..n - 1] @ [b]) ! nat n"
    using assms(1) by (simp add: row_def nat_add_distrib)
  also have "\<dots> = b" using l by (metis nth_append_length)
  finally show "row ! nat (n + 1) = b" .
  fix i :: int assume i: "0 \<le> i" "i < n"
  have "row ! nat (i + 1) = (map g [0..n - 1] @ [b]) ! nat i"
    using i by (simp add: row_def nat_add_distrib)
  also have "\<dots> = map g [0..n - 1] ! nat i" using i by (simp add: nth_append)
  also have "\<dots> = g i" using i by simp
  finally show "row ! nat (i + 1) = g i" .
qed

section \<open>Exact float arithmetic on small dyadic numbers\<close>

lemma b64_round_zero: "b64_round 0 = 0"
  by (simp add: b64_round_def)

lemma b64_round_one: "b64_round 1 = 1"
  using b64_round_of_int [of 1] by simp

lemma b64_round_numeral:
  "(numeral n :: int) < 2 ^ 53 \<Longrightarrow> b64_round (numeral n) = numeral n"
  using b64_round_of_int [of "numeral n"] by simp

lemma b64_round_numeral_half:
  "(numeral n :: int) < 2 ^ 53 \<Longrightarrow> b64_round (numeral n / 2) = numeral n / 2"
  using b64_round_exact [of "numeral n" "- 1"] by (simp add: field_simps)

lemma b64_round_numeral_quarter:
  "(numeral n :: int) < 2 ^ 53 \<Longrightarrow> b64_round (numeral n / 4) = numeral n / 4"
  using b64_round_exact [of "numeral n" "- 2"] by (simp add: field_simps)

lemma b64_round_half: "b64_round (1 / 2) = 1 / 2"
  using b64_round_exact [of 1 "- 1"] by (simp add: field_simps)

lemma b64_round_quarter: "b64_round (1 / 4) = 1 / 4"
  using b64_round_exact [of 1 "- 2"] by (simp add: field_simps)

lemma round_half_even_zero: "round_half_even 0 = 0"
  using round_half_even_of_int [of 0] by simp

lemma round_half_even_numeral: "round_half_even (numeral n) = numeral n"
  using round_half_even_of_int [of "numeral n"] by simp

lemmas dyadic_eval =
  b64_round_zero b64_round_one b64_round_numeral b64_round_numeral_half
  b64_round_numeral_quarter b64_round_half b64_round_quarter
  round_half_even_zero round_half_even_numeral

section \<open>Ascending gradients\<close>

text \<open>
  A palette in the range \<open>(100,100,100)\<close> and two equal endpoints of hue 100: both have
  canonical hue 255, the single interior mix rounds to 255, and the stored hue is 0.
\<close>

lemma canonical_example_full_hue:
  "hsv_adjust_range (100, 0, 0) (100, 100, 100) = Inr (255, 0, 0)"
proof -
  have "canonical_channel 100 100 = 255" by (rule canonical_channel_eqI) simp_all
  moreover have "canonical_channel 0 100 = 0" by (rule canonical_channel_eqI) simp_all
  ultimately show ?thesis by (simp add: hsv_adjust_range_in_range)
qed

lemma example_full_hue_mix:
  "round_half_even (mix_value 255 255 (gradient_ratio 1 0)) = 255"
  "round_half_even (mix_value 0 0 (gradient_ratio 1 0)) = 0"
  by (simp_all add: mix_value_def gradient_ratio_def dyadic_eval)

lemma example_full_hue_row:
  "gradient_row (100, 100, 100) (100, 0, 0) (100, 0, 0) 1 True =
     Inr [(255, 0, 0), (0, 0, 0), (255, 0, 0)]"
proof -
  have i: "[0..1 - 1] = [0::int]" by (simp add: upto.simps)
  have "gradient_row (100, 100, 100) (100, 0, 0) (100, 0, 0) 1 True =
     Inr ((255, 0, 0) # map (interior_color (255, 0, 0) (255, 0, 0) 1) [0..1 - 1] @ [(255, 0, 0)])"
    using gradient_row_Fin [OF canonical_example_full_hue canonical_example_full_hue, of 1 True]
    by simp
  then show ?thesis
    by (simp add: i interior_color_def example_full_hue_mix)
qed

text \<open>
  Claim C1, as amended.  When both endpoints have canonical values \<open>a\<close> and \<open>b\<close> (of
  magnitude at most \<open>2^1000\<close>, so that no float operation overflows) and
  \<open>number_in_between = n \<ge> 0\<close>, \<open>add_gradient\<close> with \<open>hue_ascending = True\<close> appends exactly
  one row of length \<open>n + 2\<close>; its first element is \<open>a\<close>, its last element is \<open>b\<close>, and the
  element at position \<open>i + 1\<close> has saturation and value \<open>round(a[ch]*(1-t) + b[ch]*t)\<close>
  with \<open>t = (i+1)/(n+1)\<close>, every operation in binary64, and hue
  \<open>round(a[0]*(1-t) + b[0]*t) mod 255\<close>.  For \<open>n = 0\<close> the row is \<open>[a, b]\<close>.
\<close>

theorem add_gradient_ascending_row:
  assumes a: "hsv_adjust_range color1 (hsv_range p) = Inr a"
    and b: "hsv_adjust_range color2 (hsv_range p) = Inr b"
    and ba: "\<bar>fst a\<bar> \<le> 2 ^ 1000" "\<bar>fst (snd a)\<bar> \<le> 2 ^ 1000" "\<bar>snd (snd a)\<bar> \<le> 2 ^ 1000"
    and bb: "\<bar>fst b\<bar> \<le> 2 ^ 1000" "\<bar>fst (snd b)\<bar> \<le> 2 ^ 1000" "\<bar>snd (snd b)\<bar> \<le> 2 ^ 1000"
    and n: "0 \<le> n"
  shows "\<exists>row. add_gradient color1 color2 n True p = (None, p\<lparr>rows := rows p @ [row]\<rparr>)
           \<and> length row = nat (n + 2)
           \<and> row ! 0 = a
           \<and> row ! nat (n + 1) = b
           \<and> (\<forall>i. 0 \<le> i \<and> i < n \<longrightarrow>
                 row ! nat (i + 1) =
                   (round_half_even (mix_value (hue a) (hue b) (gradient_ratio n i)) mod 255,
                    round_half_even (mix_value (saturation a) (saturation b) (gradient_ratio n i)),
                    round_half_even (mix_value (val a) (val b) (gradient_ratio n i))))
           \<and> (n = 0 \<longrightarrow> row = [a, b])"
proof -
  define row where "row = a # map (interior_color a b n) [0..n - 1] @ [b]"
  have "add_gradient color1 color2 n True p = (None, p\<lparr>rows := rows p @ [row]\<rparr>)"
    using add_gradient_Fin [OF a b ba bb, of n True] by (simp add: row_def)
  moreover note gradient_row_shape [OF n, where a = a and g = "interior_color a b n" and b = b,
      folded row_def]
  moreover have "n = 0 \<longrightarrow> row = [a, b]" by (simp add: row_def)
  ultimately show ?thesis
    by (intro exI [of _ row]) (simp add: interior_color_def hue_def saturation_def val_def)
qed

text \<open>The theorem at the first call of the script: a four-element row that starts with
  \<open>(34,48,252)\<close> and ends with \<open>(11,153,252)\<close>.\<close>

lemma canonical_example_first:
  "hsv_adjust_range (48, 19, 99) (360, 100, 100) = Inr (34, 48, 252)"
proof -
  have "canonical_channel 48 360 = 34" by (rule canonical_channel_eqI) simp_all
  moreover have "canonical_channel 19 100 = 48" by (rule canonical_channel_eqI) simp_all
  moreover have "canonical_channel 99 100 = 252" by (rule canonical_channel_eqI) simp_all
  ultimately show ?thesis by (simp add: hsv_adjust_range_in_range)
qed

lemma canonical_example_second:
  "hsv_adjust_range (16, 60, 99) (360, 100, 100) = Inr (11, 153, 252)"
proof -
  have "canonical_channel 16 360 = 11" by (rule canonical_channel_eqI) simp_all
  moreover have "canonical_channel 60 100 = 153" by (rule canonical_channel_eqI) simp_all
  moreover have "canonical_channel 99 100 = 252" by (rule canonical_channel_eqI) simp_all
  ultimately show ?thesis by (simp add: hsv_adjust_range_in_range)
qed

theorem add_gradient_ascending_row_witness:
  "\<exists>row. add_gradient (48, 19, 99) (16, 60, 99) 2 True (init (360, 100, 100)) =
            (None, \<lparr>rows = [row], hsv_range = (360, 100, 100)\<rparr>)
        \<and> length row = 4 \<and> row ! 0 = (34, 48, 252) \<and> row ! 3 = (11, 153, 252)"
proof -
  have a: "hsv_adjust_range (48, 19, 99) (hsv_range (init (360, 100, 100))) = Inr (34, 48, 252)"
    by (simp add: init_def canonical_example_first)
  have b: "hsv_adjust_range (16, 60, 99) (hsv_range (init (360, 100, 100))) = Inr (11, 153, 252)"
    by (simp add: init_def canonical_example_second)
  from add_gradient_ascending_row [OF a b, of 2]
  obtain row where "add_gradient (48, 19, 99) (16, 60, 99) 2 True (init (360, 100, 100)) =
      (None, (init (360, 100, 100))\<lparr>rows := rows (init (360, 100, 100)) @ [row]\<rparr>)"
    "length row = nat (2 + 2)" "row ! 0 = (34, 48, 252)" "row ! nat (2 + 1) = (11, 153, 252)"
    by auto
  then show ?thesis
    by (intro exI [of _ row]) (simp add: init_def eval_nat_numeral)
qed

text \<open>
  Claim C1 as stated fails on the hue channel: with both endpoints \<open>(100,0,0)\<close> in the range
  \<open>(100,100,100)\<close> and one step, the interior hue mix rounds to 255 but the row stores 0.
\<close>

theorem add_gradient_ascending_counterexample:
  "add_gradient (100, 0, 0) (100, 0, 0) 1 True (init (100, 100, 100)) =
     (None, \<lparr>rows = [[(255, 0, 0), (0, 0, 0), (255, 0, 0)]], hsv_range = (100, 100, 100)\<rparr>)
   \<and> round_half_even (mix_value 255 255 (gradient_ratio 1 0)) = 255
   \<and> hue ([(255, 0, 0), (0, 0, 0), (255, 0, 0)] ! 1)
        \<noteq> round_half_even (mix_value 255 255 (gradient_ratio 1 0))"
  by (simp add: add_gradient_def init_def example_full_hue_row example_full_hue_mix hue_def)

section \<open>The hue reduction and the flag\<close>

lemma gradient_color_Inr:
  assumes "gradient_color c1 c2 n i = Inr c"
  shows "\<exists>t m. int_truediv (i + 1) (n + 1) = Inr t \<and> mix_colors c1 c2 t = Inr m
           \<and> c = (fst m mod 255, fst (snd m), snd (snd m))"
proof (cases "int_truediv (i + 1) (n + 1)")
  case (Inl e)
  with assms show ?thesis by (simp add: gradient_color_def)
next
  case t: (Inr t)
  show ?thesis
  proof (cases "mix_colors c1 c2 t")
    case (Inl e)
    with assms t show ?thesis by (simp add: gradient_color_def)
  next
    case (Inr m)
    with assms t have "c = (fst m mod 255, fst (snd m), snd (snd m))"
      by (simp add: gradient_color_def)
    with t Inr show ?thesis by blast
  qed
qed

lemma gradient_row_Inr:
  assumes "gradient_row rng color1 color2 n hue_ascending = Inr row"
  shows "\<exists>a b cs. hsv_adjust_range color1 rng = Inr a \<and> hsv_adjust_range color2 rng = Inr b
           \<and> row = a # cs @ [b] \<and> length cs = nat n
           \<and> (\<forall>i. 0 \<le> i \<and> i < n \<longrightarrow>
                 gradient_color
                   (if \<not> hue_ascending then (fst a + 255, fst (snd a), snd (snd a)) else a) b n i =
                 Inr (cs ! nat i))"
proof (cases "hsv_adjust_range color1 rng")
  case (Inl e)
  with assms show ?thesis by (simp add: gradient_row_def)
next
  case a: (Inr a)
  show ?thesis
  proof (cases "hsv_adjust_range color2 rng")
    case (Inl e)
    with assms a show ?thesis by (simp add: gradient_row_def)
  next
    case b: (Inr b)
    define s where "s = (if \<not> hue_ascending then (fst a + 255, fst (snd a), snd (snd a)) else a)"
    show ?thesis
    proof (cases "gradient_loop s b n [0..n - 1] [a]")
      case (Inl e)
      with assms a b show ?thesis by (simp add: gradient_row_def s_def)
    next
      case (Inr new_row)
      with assms a b have row: "row = new_row @ [b]" by (simp add: gradient_row_def s_def)
      from gradient_loop_Inr [OF Inr] obtain cs where cs: "new_row = [a] @ cs"
        "length cs = length [0..n - 1]"
        "\<forall>k < length [0..n - 1]. gradient_color s b n ([0..n - 1] ! k) = Inr (cs ! k)" by blast
      have "gradient_color s b n i = Inr (cs ! nat i)" if "0 \<le> i \<and> i < n" for i
      proof -
        from that have k: "nat i < length [0..n - 1]" by simp
        have "[0..n - 1] ! nat i = i" using that by simp
        with cs(3) k show ?thesis by fastforce
      qed
      with a b row cs(1,2) show ?thesis
        by (intro exI [of _ a] exI [of _ b] exI [of _ cs]) (simp add: s_def)
    qed
  qed
qed

text \<open>
  Claim C9.  Whatever \<open>hue_ascending\<close> is, every interior colour of a gradient row stores the
  hue of the rounded mix reduced modulo 255 (hence a hue between 0 and 254), while saturation
  and value are stored as mixed.  With \<open>hue_ascending = True\<close> and both endpoints of canonical
  hue 255, the interior mix rounds to 255 and the row stores 0.
\<close>

theorem interior_hue_reduced:
  "(\<forall>rng color1 color2 n hue_ascending row i.
       gradient_row rng color1 color2 n hue_ascending = Inr row \<and> 0 \<le> i \<and> i < n \<longrightarrow>
       (\<exists>a b t m. hsv_adjust_range color1 rng = Inr a \<and> hsv_adjust_range color2 rng = Inr b
          \<and> int_truediv (i + 1) (n + 1) = Inr t
          \<and> mix_colors (if \<not> hue_ascending then (fst a + 255, fst (snd a), snd (snd a)) else a) b t
               = Inr m
          \<and> row ! nat (i + 1) = (hue m mod 255, saturation m, val m)
          \<and> 0 \<le> hue (row ! nat (i + 1)) \<and> hue (row ! nat (i + 1)) < 255))
   \<and> gradient_row (100, 100, 100) (100, 0, 0) (100, 0, 0) 1 True =
        Inr [(255, 0, 0), (0, 0, 0), (255, 0, 0)]
   \<and> round_half_even (mix_value 255 255 (gradient_ratio 1 0)) = 255"
proof -
  have "\<exists>a b t m. hsv_adjust_range color1 rng = Inr a \<and> hsv_adjust_range color2 rng = Inr b
          \<and> int_truediv (i + 1) (n + 1) = Inr t
          \<and> mix_colors (if \<not> hue_ascending then (fst a + 255, fst (snd a), snd (snd a)) else a) b t
               = Inr m
          \<and> row ! nat (i + 1) = (hue m mod 255, saturation m, val m)
          \<and> 0 \<le> hue (row ! nat (i + 1)) \<and> hue (row ! nat (i + 1)) < 255"
    if r: "gradient_row rng color1 color2 n hue_ascending = Inr row" and i: "0 \<le> i" "i < n"
    for rng color1 color2 n hue_ascending row i
  proof -
    from gradient_row_Inr [OF r] obtain a b cs where
      ab: "hsv_adjust_range color1 rng = Inr a" "hsv_adjust_range color2 rng = Inr b"
      and row: "row = a # cs @ [b]" and len: "length cs = nat n"
      and g: "\<forall>i. 0 \<le> i \<and> i < n \<longrightarrow>
                 gradient_color
                   (if \<not> hue_ascending then (fst a + 255, fst (snd a), snd (snd a)) else a) b n i =
                 Inr (cs ! nat i)" by blast
    from g i have "gradient_color
        (if \<not> hue_ascending then (fst a + 255, fst (snd a), snd (snd a)) else a) b n i =
        Inr (cs ! nat i)" by blast
    from gradient_color_Inr [OF this] obtain t m where
      tm: "int_truediv (i + 1) (n + 1) = Inr t"
        "mix_colors (if \<not> hue_ascending then (fst a + 255, fst (snd a), snd (snd a)) else a) b t
           = Inr m"
        "cs ! nat i = (fst m mod 255, fst (snd m), snd (snd m))" by blast
    have "row ! nat (i + 1) = cs ! nat i"
      using i len by (simp add: row nat_add_distrib nth_append)
    with tm(3) have "row ! nat (i + 1) = (hue m mod 255, saturation m, val m)"
      by (simp add: hue_def saturation_def val_def)
    moreover from this have "0 \<le> hue (row ! nat (i + 1))" "hue (row ! nat (i + 1)) < 255"
      by (simp_all add: hue_def)
    ultimately show ?thesis using ab tm(1,2) by blast
  qed
  then show ?thesis
    using example_full_hue_row example_full_hue_mix(1) by blast
qed

text \<open>The theorem at that input: the interior hue of the row is 0, below 255.\<close>

theorem interior_hue_reduced_witness:
  "hue ([(255, 0, 0), (0, 0, 0), (255, 0, 0)] ! nat (0 + 1)) < 255
   \<and> gradient_row (100, 100, 100) (100, 0, 0) (100, 0, 0) 1 True =
        Inr [(255, 0, 0), (0, 0, 0), (255, 0, 0)]"
proof -
  have r: "gradient_row (100, 100, 100) (100, 0, 0) (100, 0, 0) 1 True =
        Inr [(255, 0, 0), (0, 0, 0), (255, 0, 0)] \<and> (0::int) \<le> 0 \<and> (0::int) < 1"
    using interior_hue_reduced by simp
  from interior_hue_reduced
  have "gradient_row (100, 100, 100) (100, 0, 0) (100, 0, 0) 1 True =
        Inr [(255, 0, 0), (0, 0, 0), (255, 0, 0)] \<and> (0::int) \<le> 0 \<and> (0::int) < 1 \<longrightarrow>
      (\<exists>a b t m. hsv_adjust_range (100, 0, 0) (100, 100, 100) = Inr a
          \<and> hsv_adjust_range (100, 0, 0) (100, 100, 100) = Inr b
          \<and> int_truediv (0 + 1) (1 + 1) = Inr t
          \<and> mix_colors (if \<not> True then (fst a + 255, fst (snd a), snd (snd a)) else a) b t = Inr m
          \<and> [(255, 0, 0), (0, 0, 0), (255, 0, 0)] ! nat (0 + 1) = (hue m mod 255, saturation m, val m)
          \<and> 0 \<le> hue ([(255, 0, 0), (0, 0, 0), (255, 0, 0)] ! nat (0 + 1))
          \<and> hue ([(255, 0, 0), (0, 0, 0), (255, 0, 0)] ! nat (0 + 1)) < 255)"
    by blast
  with r show ?thesis by blast
qed

section \<open>Arguments that are not validated\<close>

lemma canonical_example_black:
  "hsv_adjust_range (0, 0, 0) (100, 100, 100) = Inr (0, 0, 0)"
proof -
  have "canonical_channel 0 100 = 0" by (rule canonical_channel_eqI) simp_all
  then show ?thesis by (simp add: hsv_adjust_range_in_range)
qed

lemma canonical_example_white:
  "hsv_adjust_range (100, 100, 100) (100, 100, 100) = Inr (255, 255, 255)"
proof -
  have "canonical_channel 100 100 = 255" by (rule canonical_channel_eqI) simp_all
  then show ?thesis by (simp add: hsv_adjust_range_in_range)
qed

lemma add_gradient_raise_unchanged:
  "fst (add_gradient color1 color2 n hue_ascending p) = Some e \<Longrightarrow>
     snd (add_gradient color1 color2 n hue_ascending p) = p"
  by (simp add: add_gradient_def split: sum.splits)

lemma add_shades_raise_unchanged:
  "fst (add_shades base_color shift d u p) = Some e \<Longrightarrow>
     snd (add_shades base_color shift d u p) = p"
  by (simp add: add_shades_def split: sum.splits)

text \<open>
  Claim C7 as stated fails: a negative \<open>number_in_between\<close> raises nothing and appends the
  two endpoints, and negative shade counts raise nothing and append the empty row.
\<close>

theorem negative_counts_counterexample:
  "add_gradient (0, 0, 0) (100, 100, 100) (- 1) True (init (100, 100, 100)) =
     (None, \<lparr>rows = [[(0, 0, 0), (255, 255, 255)]], hsv_range = (100, 100, 100)\<rparr>)
   \<and> add_shades (0, 0, 0) (100, 100, 100) (- 3) 1 (init (100, 100, 100)) =
     (None, \<lparr>rows = [[]], hsv_range = (100, 100, 100)\<rparr>)"
proof -
  have a: "hsv_adjust_range (0, 0, 0) (hsv_range (init (100, 100, 100))) = Inr (0, 0, 0)"
    by (simp add: init_def canonical_example_black)
  have b: "hsv_adjust_range (100, 100, 100) (hsv_range (init (100, 100, 100))) = Inr (255, 255, 255)"
    by (simp add: init_def canonical_example_white)
  have "add_gradient (0, 0, 0) (100, 100, 100) (- 1) True (init (100, 100, 100)) =
     (None, \<lparr>rows = [[(0, 0, 0), (255, 255, 255)]], hsv_range = (100, 100, 100)\<rparr>)"
    using add_gradient_Fin [OF a b, of "- 1" True] by (simp add: init_def)
  moreover have "add_shades (0, 0, 0) (100, 100, 100) (- 3) 1 (init (100, 100, 100)) =
     (None, \<lparr>rows = [[]], hsv_range = (100, 100, 100)\<rparr>)"
    using add_shades_Inr [OF a b, of "- 3" 1] by (simp add: init_def)
  ultimately show ?thesis by simp
qed

text \<open>
  Claim C7, as amended.  Negative counts are not rejected: when the colour conversions
  succeed (with canonical channels of magnitude at most \<open>2^1000\<close> for the gradient),
  \<open>add_gradient\<close> with a negative \<open>number_in_between\<close> returns normally and appends the
  two-element row of the endpoints, and \<open>add_shades\<close> returns normally for any counts and
  appends the row over the interval from \<open>-number_down\<close> to \<open>number_up\<close>, which is empty
  when \<open>number_up < -number_down\<close>.  A call of either method that raises leaves the palette,
  and so its rows, as it was.
\<close>

theorem add_without_validation:
  "(n < 0 \<and> hsv_adjust_range color1 (hsv_range p) = Inr a
      \<and> hsv_adjust_range color2 (hsv_range p) = Inr b
      \<and> \<bar>fst a\<bar> \<le> 2 ^ 1000 \<and> \<bar>fst (snd a)\<bar> \<le> 2 ^ 1000 \<and> \<bar>snd (snd a)\<bar> \<le> 2 ^ 1000
      \<and> \<bar>fst b\<bar> \<le> 2 ^ 1000 \<and> \<bar>fst (snd b)\<bar> \<le> 2 ^ 1000 \<and> \<bar>snd (snd b)\<bar> \<le> 2 ^ 1000
      \<longrightarrow> add_gradient color1 color2 n hue_ascending p = (None, p\<lparr>rows := rows p @ [[a, b]]\<rparr>))
   \<and> (hsv_adjust_range base_color (hsv_range p) = Inr bc
      \<and> hsv_adjust_range shift (hsv_range p) = Inr s
      \<longrightarrow> add_shades base_color shift d u p =
            (None, p\<lparr>rows := rows p @
               [map (\<lambda>i. (hue bc + hue s * i, saturation bc + saturation s * i, val bc + val s * i))
                  [- d..u]]\<rparr>)
          \<and> (u < - d \<longrightarrow> add_shades base_color shift d u p = (None, p\<lparr>rows := rows p @ [[]]\<rparr>)))
   \<and> (fst (add_gradient color1 color2 n hue_ascending p) = Some e
      \<longrightarrow> snd (add_gradient color1 color2 n hue_ascending p) = p)
   \<and> (fst (add_shades base_color shift d u p) = Some e
      \<longrightarrow> snd (add_shades base_color shift d u p) = p)"
proof -
  have g: "add_gradient color1 color2 n hue_ascending p = (None, p\<lparr>rows := rows p @ [[a, b]]\<rparr>)"
    if "n < 0" "hsv_adjust_range color1 (hsv_range p) = Inr a"
      "hsv_adjust_range color2 (hsv_range p) = Inr b"
      "\<bar>fst a\<bar> \<le> 2 ^ 1000" "\<bar>fst (snd a)\<bar> \<le> 2 ^ 1000" "\<bar>snd (snd a)\<bar> \<le> 2 ^ 1000"
      "\<bar>fst b\<bar> \<le> 2 ^ 1000" "\<bar>fst (snd b)\<bar> \<le> 2 ^ 1000" "\<bar>snd (snd b)\<bar> \<le> 2 ^ 1000"
  proof -
    have "[0..n - 1] = []" using that(1) by simp
    with add_gradient_Fin [OF that(2-9), of n hue_ascending] show ?thesis by simp
  qed
  have sh: "add_shades base_color shift d u p =
            (None, p\<lparr>rows := rows p @
               [map (\<lambda>i. (hue bc + hue s * i, saturation bc + saturation s * i, val bc + val s * i))
                  [- d..u]]\<rparr>)
          \<and> (u < - d \<longrightarrow> add_shades base_color shift d u p = (None, p\<lparr>rows := rows p @ [[]]\<rparr>))"
    if "hsv_adjust_range base_color (hsv_range p) = Inr bc"
      "hsv_adjust_range shift (hsv_range p) = Inr s"
    using add_shades_Inr [OF that, of d u] by simp
  show ?thesis
    using g sh add_gradient_raise_unchanged [of color1 color2 n hue_ascending p e]
      add_shades_raise_unchanged [of base_color shift d u p e]
    by blast
qed

text \<open>The theorem at a gradient with \<open>number_in_between = -1\<close> between black and white.\<close>

theorem add_without_validation_witness:
  "add_gradient (0, 0, 0) (100, 100, 100) (- 1) False (init (100, 100, 100)) =
     (None, \<lparr>rows = [[(0, 0, 0), (255, 255, 255)]], hsv_range = (100, 100, 100)\<rparr>)"
proof -
  have a: "hsv_adjust_range (0, 0, 0) (hsv_range (init (100, 100, 100))) = Inr (0, 0, 0)"
    by (simp add: init_def canonical_example_black)
  have b: "hsv_adjust_range (100, 100, 100) (hsv_range (init (100, 100, 100))) = Inr (255, 255, 255)"
    by (simp add: init_def canonical_example_white)
  have h: "(- 1 :: int) < 0
      \<and> hsv_adjust_range (0, 0, 0) (hsv_range (init (100, 100, 100))) = Inr (0, 0, 0)
      \<and> hsv_adjust_range (100, 100, 100) (hsv_range (init (100, 100, 100))) = Inr (255, 255, 255)
      \<and> \<bar>fst (0 :: int, 0 :: int, 0 :: int)\<bar> \<le> 2 ^ 1000
      \<and> \<bar>fst (snd (0 :: int, 0 :: int, 0 :: int))\<bar> \<le> 2 ^ 1000
      \<and> \<bar>snd (snd (0 :: int, 0 :: int, 0 :: int))\<bar> \<le> 2 ^ 1000
      \<and> \<bar>fst (255 :: int, 255 :: int, 255 :: int)\<bar> \<le> 2 ^ 1000
      \<and> \<bar>fst (snd (255 :: int, 255 :: int, 255 :: int))\<bar> \<le> 2 ^ 1000
      \<and> \<bar>snd (snd (255 :: int, 255 :: int, 255 :: int))\<bar> \<le> 2 ^ 1000"
    using a b by simp
  from add_without_validation [of "- 1" "(0, 0, 0)" "init (100, 100, 100)" "(0, 0, 0)"
      "(100, 100, 100)" "(255, 255, 255)" False, THEN conjunct1, rule_format, OF h]
  show ?thesis by (simp add: init_def)
qed

section \<open>Construction without validation\<close>

text \<open>
  Claim C10.  \<open>__init__\<close> stores any range, also one with a zero or negative channel, and
  starts with no rows; it has no way to raise.  On a palette whose range has a zero channel
  every \<open>add_gradient\<close> and \<open>add_shades\<close> call raises in the conversion of its first colour
  and leaves the palette unchanged; the error is the division by zero whenever the colour
  is not so large (beyond \<open>2^1000\<close>) that a channel before the zero one overflows first.
\<close>

theorem zero_range_fails_at_add:
  "rows (init rng) = [] \<and> hsv_range (init rng) = rng
   \<and> (fst rng = 0 \<or> fst (snd rng) = 0 \<or> snd (snd rng) = 0 \<longrightarrow>
        (\<exists>e. add_gradient color1 color2 n hue_ascending (init rng) = (Some e, init rng))
      \<and> (\<exists>e. add_shades base_color shift d u (init rng) = (Some e, init rng))
      \<and> (\<bar>fst color1\<bar> \<le> 2 ^ 1000 \<and> \<bar>fst (snd color1)\<bar> \<le> 2 ^ 1000
            \<and> \<bar>snd (snd color1)\<bar> \<le> 2 ^ 1000 \<longrightarrow>
          add_gradient color1 color2 n hue_ascending (init rng) = (Some ZeroDivisionError, init rng))
      \<and> (\<bar>fst base_color\<bar> \<le> 2 ^ 1000 \<and> \<bar>fst (snd base_color)\<bar> \<le> 2 ^ 1000
            \<and> \<bar>snd (snd base_color)\<bar> \<le> 2 ^ 1000 \<longrightarrow>
          add_shades base_color shift d u (init rng) = (Some ZeroDivisionError, init rng)))"
proof -
  have i: "rows (init rng) = []" "hsv_range (init rng) = rng" by (simp_all add: init_def)
  have z: "(\<exists>e. add_gradient color1 color2 n hue_ascending (init rng) = (Some e, init rng))
      \<and> (\<exists>e. add_shades base_color shift d u (init rng) = (Some e, init rng))
      \<and> (\<bar>fst color1\<bar> \<le> 2 ^ 1000 \<and> \<bar>fst (snd color1)\<bar> \<le> 2 ^ 1000
            \<and> \<bar>snd (snd color1)\<bar> \<le> 2 ^ 1000 \<longrightarrow>
          add_gradient color1 color2 n hue_ascending (init rng) = (Some ZeroDivisionError, init rng))
      \<and> (\<bar>fst base_color\<bar> \<le> 2 ^ 1000 \<and> \<bar>fst (snd base_color)\<bar> \<le> 2 ^ 1000
            \<and> \<bar>snd (snd base_color)\<bar> \<le> 2 ^ 1000 \<longrightarrow>
          add_shades base_color shift d u (init rng) = (Some ZeroDivisionError, init rng))"
    if zero: "fst rng = 0 \<or> fst (snd rng) = 0 \<or> snd (snd rng) = 0"
  proof -
    from hsv_adjust_range_zero_fails [OF zero, of color1]
    obtain e1 where e1: "hsv_adjust_range color1 rng = Inl e1" by blast
    from hsv_adjust_range_zero_fails [OF zero, of base_color]
    obtain e2 where e2: "hsv_adjust_range base_color rng = Inl e2" by blast
    have g: "add_gradient color1 color2 n hue_ascending (init rng) = (Some e1, init rng)"
      by (simp add: add_gradient_def gradient_row_def i e1)
    have s: "add_shades base_color shift d u (init rng) = (Some e2, init rng)"
      by (simp add: add_shades_def shades_row_def i e2)
    have g': "add_gradient color1 color2 n hue_ascending (init rng) = (Some ZeroDivisionError, init rng)"
      if "\<bar>fst color1\<bar> \<le> 2 ^ 1000" "\<bar>fst (snd color1)\<bar> \<le> 2 ^ 1000"
         "\<bar>snd (snd color1)\<bar> \<le> 2 ^ 1000"
      by (simp add: add_gradient_def gradient_row_def i
          hsv_adjust_range_zero_division [OF zero that])
    have s': "add_shades base_color shift d u (init rng) = (Some ZeroDivisionError, init rng)"
      if "\<bar>fst base_color\<bar> \<le> 2 ^ 1000" "\<bar>fst (snd base_color)\<bar> \<le> 2 ^ 1000"
         "\<bar>snd (snd base_color)\<bar> \<le> 2 ^ 1000"
      by (simp add: add_shades_def shades_row_def i
          hsv_adjust_range_zero_division [OF zero that])
    from g s g' s' show ?thesis by blast
  qed
  with i show ?thesis by blast
qed

text \<open>The theorem at the range \<open>(360, 0, -100)\<close> and the first call of the script.\<close>

theorem zero_range_fails_at_add_witness:
  "init (360, 0, - 100) = \<lparr>rows = [], hsv_range = (360, 0, - 100)\<rparr>
   \<and> add_gradient (48, 19, 99) (16, 60, 99) 2 True (init (360, 0, - 100)) =
       (Some ZeroDivisionError, init (360, 0, - 100))"
proof -
  have z: "fst (360 :: int, 0 :: int, - 100 :: int) = 0 \<or> fst (snd (360 :: int, 0 :: int, - 100 :: int)) = 0
      \<or> snd (snd (360 :: int, 0 :: int, - 100 :: int)) = 0" by simp
  have c: "\<bar>fst (48 :: int, 19 :: int, 99 :: int)\<bar> \<le> 2 ^ 1000
      \<and> \<bar>fst (snd (48 :: int, 19 :: int, 99 :: int))\<bar> \<le> 2 ^ 1000
      \<and> \<bar>snd (snd (48 :: int, 19 :: int, 99 :: int))\<bar> \<le> 2 ^ 1000" by simp
  note t = zero_range_fails_at_add [of "(360, 0, - 100)" "(48, 19, 99)" "(16, 60, 99)" 2 True
      "(0, 0, 0)" "(0, 0, 0)" 0 0]
  from t [THEN conjunct2, THEN conjunct2, rule_format, OF z]
  have "\<bar>fst (48 :: int, 19 :: int, 99 :: int)\<bar> \<le> 2 ^ 1000
      \<and> \<bar>fst (snd (48 :: int, 19 :: int, 99 :: int))\<bar> \<le> 2 ^ 1000
      \<and> \<bar>snd (snd (48 :: int, 19 :: int, 99 :: int))\<bar> \<le> 2 ^ 1000 \<longrightarrow>
     add_gradient (48, 19, 99) (16, 60, 99) 2 True (init (360, 0, - 100)) =
       (Some ZeroDivisionError, init (360, 0, - 100))" by blast
  with c have "add_gradient (48, 19, 99) (16, 60, 99) 2 True (init (360, 0, - 100)) =
       (Some ZeroDivisionError, init (360, 0, - 100))" by blast
  then show ?thesis by (simp add: init_def)
qed

section \<open>The canonical scale\<close>

text \<open>
  Claim C4.  The conversion of a colour is \<open>round(255 * value / range)\<close> on each channel
  (binary64 division, rounding half to even).  For a range with positive channels and a colour
  whose channels lie between 0 and the range, it returns and every canonical channel lies in
  \<open>[0, 255]\<close>.  The same formula converts any triple, such as a shift with negative channels,
  as long as no range channel is zero and the division does not overflow.  In the range \<open>(360,100,100)\<close> it maps \<open>(48,19,99)\<close> to \<open>(34,48,252)\<close>, the first
  element of the four-element row that \<open>add_gradient((48,19,99), (16,60,99), 2)\<close> appends.
\<close>

theorem canonical_in_range:
  "(\<forall>rng c. 0 < fst rng \<and> 0 < fst (snd rng) \<and> 0 < snd (snd rng)
        \<and> 0 \<le> fst c \<and> fst c \<le> fst rng
        \<and> 0 \<le> fst (snd c) \<and> fst (snd c) \<le> fst (snd rng)
        \<and> 0 \<le> snd (snd c) \<and> snd (snd c) \<le> snd (snd rng) \<longrightarrow>
      (\<exists>a. hsv_adjust_range c rng = Inr a
         \<and> a = (round_half_even (b64_round (of_int (255 * fst c) / of_int (fst rng))),
                round_half_even (b64_round (of_int (255 * fst (snd c)) / of_int (fst (snd rng)))),
                round_half_even (b64_round (of_int (255 * snd (snd c)) / of_int (snd (snd rng)))))
         \<and> 0 \<le> hue a \<and> hue a \<le> 255
         \<and> 0 \<le> saturation a \<and> saturation a \<le> 255
         \<and> 0 \<le> val a \<and> val a \<le> 255))
   \<and> (\<forall>rng c. fst rng \<noteq> 0 \<and> fst (snd rng) \<noteq> 0 \<and> snd (snd rng) \<noteq> 0
        \<and> \<bar>fst c\<bar> \<le> 2 ^ 1000 \<and> \<bar>fst (snd c)\<bar> \<le> 2 ^ 1000 \<and> \<bar>snd (snd c)\<bar> \<le> 2 ^ 1000 \<longrightarrow>
      hsv_adjust_range c rng =
        Inr (round_half_even (b64_round (of_int (255 * fst c) / of_int (fst rng))),
             round_half_even (b64_round (of_int (255 * fst (snd c)) / of_int (fst (snd rng)))),
             round_half_even (b64_round (of_int (255 * snd (snd c)) / of_int (snd (snd rng))))))
   \<and> hsv_adjust_range (48, 19, 99) (360, 100, 100) = Inr (34, 48, 252)
   \<and> (\<exists>row. add_gradient (48, 19, 99) (16, 60, 99) 2 True (init (360, 100, 100)) =
              (None, \<lparr>rows = [row], hsv_range = (360, 100, 100)\<rparr>)
          \<and> length row = 4 \<and> row ! 0 = (34, 48, 252))"
proof -
  have g: "\<exists>a. hsv_adjust_range c rng = Inr a
         \<and> a = (round_half_even (b64_round (of_int (255 * fst c) / of_int (fst rng))),
                round_half_even (b64_round (of_int (255 * fst (snd c)) / of_int (fst (snd rng)))),
                round_half_even (b64_round (of_int (255 * snd (snd c)) / of_int (snd (snd rng)))))
         \<and> 0 \<le> hue a \<and> hue a \<le> 255
         \<and> 0 \<le> saturation a \<and> saturation a \<le> 255
         \<and> 0 \<le> val a \<and> val a \<le> 255"
    if r: "0 < fst rng" "0 < fst (snd rng)" "0 < snd (snd rng)"
      and h: "0 \<le> fst c" "fst c \<le> fst rng"
      and s: "0 \<le> fst (snd c)" "fst (snd c) \<le> fst (snd rng)"
      and v: "0 \<le> snd (snd c)" "snd (snd c) \<le> snd (snd rng)"
    for rng c :: color
  proof -
    note ch = channel_in_range [OF r(1) h] and cs = channel_in_range [OF r(2) s]
      and cv = channel_in_range [OF r(3) v]
    have "hsv_adjust_range c rng =
        Inr (canonical_channel (fst c) (fst rng), canonical_channel (fst (snd c)) (fst (snd rng)),
             canonical_channel (snd (snd c)) (snd (snd rng)))"
      by (rule hsv_adjust_range_in_range [OF r h s v])
    with ch(2,3) cs(2,3) cv(2,3) show ?thesis
      by (simp add: hue_def saturation_def val_def canonical_channel_def)
  qed
  have g2: "hsv_adjust_range c rng =
        Inr (round_half_even (b64_round (of_int (255 * fst c) / of_int (fst rng))),
             round_half_even (b64_round (of_int (255 * fst (snd c)) / of_int (fst (snd rng)))),
             round_half_even (b64_round (of_int (255 * snd (snd c)) / of_int (snd (snd rng)))))"
    if "fst rng \<noteq> 0" "fst (snd rng) \<noteq> 0" "snd (snd rng) \<noteq> 0"
      "\<bar>fst c\<bar> \<le> 2 ^ 1000" "\<bar>fst (snd c)\<bar> \<le> 2 ^ 1000" "\<bar>snd (snd c)\<bar> \<le> 2 ^ 1000"
    for rng c :: color
    using hsv_adjust_range_bounded [OF that] by (simp only: canonical_channel_def)
  have a: "hsv_adjust_range (48, 19, 99) (hsv_range (init (360, 100, 100))) = Inr (34, 48, 252)"
    by (simp add: init_def canonical_example_first)
  have b: "hsv_adjust_range (16, 60, 99) (hsv_range (init (360, 100, 100))) = Inr (11, 153, 252)"
    by (simp add: init_def canonical_example_second)
  define row where
    "row = (34, 48, 252) # map (interior_color (34, 48, 252) (11, 153, 252) 2) [0..2 - 1]
             @ [(11 :: int, 153 :: int, 252 :: int)]"
  have "add_gradient (48, 19, 99) (16, 60, 99) 2 True (init (360, 100, 100)) =
      (None, \<lparr>rows = [row], hsv_range = (360, 100, 100)\<rparr>)"
    using add_gradient_Fin [OF a b, of 2 True] by (simp add: row_def init_def)
  moreover have "length row = 4" "row ! 0 = (34, 48, 252)" by (simp_all add: row_def)
  ultimately have "\<exists>row. add_gradient (48, 19, 99) (16, 60, 99) 2 True (init (360, 100, 100)) =
              (None, \<lparr>rows = [row], hsv_range = (360, 100, 100)\<rparr>)
          \<and> length row = 4 \<and> row ! 0 = (34, 48, 252)" by blast
  with g g2 canonical_example_first show ?thesis by blast
qed

text \<open>The theorem at the colour \<open>(350, 50, 100)\<close> in the range \<open>(360, 100, 100)\<close>.\<close>

theorem canonical_in_range_witness:
  "\<exists>a. hsv_adjust_range (350, 50, 100) (360, 100, 100) = Inr a
      \<and> 0 \<le> hue a \<and> hue a \<le> 255 \<and> 0 \<le> saturation a \<and> saturation a \<le> 255
      \<and> 0 \<le> val a \<and> val a \<le> 255"
proof -
  have h: "0 < fst (360 :: int, 100 :: int, 100 :: int) \<and> 0 < fst (snd (360 :: int, 100 :: int, 100 :: int))
        \<and> 0 < snd (snd (360 :: int, 100 :: int, 100 :: int))
        \<and> 0 \<le> fst (350 :: int, 50 :: int, 100 :: int)
        \<and> fst (350 :: int, 50 :: int, 100 :: int) \<le> fst (360 :: int, 100 :: int, 100 :: int)
        \<and> 0 \<le> fst (snd (350 :: int, 50 :: int, 100 :: int))
        \<and> fst (snd (350 :: int, 50 :: int, 100 :: int)) \<le> fst (snd (360 :: int, 100 :: int, 100 :: int))
        \<and> 0 \<le> snd (snd (350 :: int, 50 :: int, 100 :: int))
        \<and> snd (snd (350 :: int, 50 :: int, 100 :: int)) \<le> snd (snd (360 :: int, 100 :: int, 100 :: int))"
    by simp
  from canonical_in_range [THEN conjunct1, rule_format, OF h] show ?thesis by blast
qed

section \<open>The rounding error of a mix\<close>

lemma abs_mult_le_const:
  fixes x d :: rat
  assumes "\<bar>x\<bar> \<le> 1024" "\<bar>d\<bar> \<le> e"
  shows "\<bar>x * d\<bar> \<le> 1024 * e"
proof -
  have "\<bar>x * d\<bar> = \<bar>x\<bar> * \<bar>d\<bar>" by (simp add: abs_mult)
  also have "\<dots> \<le> 1024 * e" using assms by (intro mult_mono) auto
  finally show ?thesis .
qed

lemma of_int_abs_le_1024:
  assumes "\<bar>a::int\<bar> \<le> 1024"
  shows "\<bar>of_int a :: rat\<bar> \<le> 1024"
proof -
  have "(of_int \<bar>a\<bar> :: rat) \<le> of_int 1024" using assms by (simp only: of_int_le_iff)
  then show ?thesis by simp
qed

text \<open>
  The distance between the binary64 mix and the exact convex combination, for channels of
  magnitude at most 1024 and a ratio within \<open>2^(-53)\<close> of the exact fraction \<open>\<rho>\<close>.
\<close>

lemma mix_value_error:
  assumes a: "\<bar>a\<bar> \<le> 1024" and b: "\<bar>b\<bar> \<le> 1024"
    and t: "0 \<le> t" "t \<le> 1" and tr: "\<bar>t - \<rho>\<bar> \<le> 1 / 2 ^ 53"
  shows "\<bar>mix_value a b t - (of_int a * (1 - \<rho>) + of_int b * \<rho>)\<bar> \<le> 1 / 2 ^ 40"
proof -
  define u where "u = b64_round (1 - t)"
  define A where "A = b64_round (of_int a * u)"
  define B where "B = b64_round (of_int b * t)"
  define S where "S = b64_round (A + B)"
  have fa: "b64_round (of_int a) = of_int a" using a by (intro b64_round_of_int) simp
  have fb: "b64_round (of_int b) = of_int b" using b by (intro b64_round_of_int) simp
  have S: "mix_value a b t = S"
    by (simp add: mix_value_def S_def A_def B_def u_def fa fb)
  note a' = of_int_abs_le_1024 [OF a] and b' = of_int_abs_le_1024 [OF b]
  have "\<bar>1 - t\<bar> < 2 powi 1" using t by simp
  then have "\<bar>b64_round (1 - t) - (1 - t)\<bar> \<le> 2 powi (1 - 54)"
    by (rule b64_round_error_bound) simp
  then have eu: "\<bar>u - (1 - t)\<bar> \<le> 1 / 2 ^ 53" by (simp add: u_def)
  have u1: "\<bar>u\<bar> \<le> 1" unfolding u_def using t by (intro b64_round_unit) simp_all
  have t1: "\<bar>t\<bar> \<le> 1" using t by simp
  have au: "\<bar>of_int a * u\<bar> \<le> 1024" using a' u1 by (rule abs_mult_le_unit)
  have bt: "\<bar>of_int b * t\<bar> \<le> 1024" using b' t1 by (rule abs_mult_le_unit)
  have "\<bar>of_int a * u\<bar> < 2 powi 11" using au by simp
  then have "\<bar>b64_round (of_int a * u) - of_int a * u\<bar> \<le> 2 powi (11 - 54)"
    by (rule b64_round_error_bound) simp
  then have eA: "\<bar>A - of_int a * u\<bar> \<le> 1 / 2 ^ 43" by (simp add: A_def)
  have "\<bar>of_int b * t\<bar> < 2 powi 11" using bt by simp
  then have "\<bar>b64_round (of_int b * t) - of_int b * t\<bar> \<le> 2 powi (11 - 54)"
    by (rule b64_round_error_bound) simp
  then have eB: "\<bar>B - of_int b * t\<bar> \<le> 1 / 2 ^ 43" by (simp add: B_def)
  have small: "(1::rat) / 2 ^ 43 \<le> 1" by simp
  have "\<bar>A + B\<bar> < 4096" using eA eB au bt small by linarith
  then have "\<bar>A + B\<bar> < 2 powi 12" by simp
  then have "\<bar>b64_round (A + B) - (A + B)\<bar> \<le> 2 powi (12 - 54)"
    by (rule b64_round_error_bound) simp
  then have eS: "\<bar>S - (A + B)\<bar> \<le> 1 / 2 ^ 42" by (simp add: S_def)
  have e1: "\<bar>of_int a * (u - (1 - t))\<bar> \<le> 1024 * (1 / 2 ^ 53)"
    using a' eu by (rule abs_mult_le_const)
  have "\<bar>\<rho> - t\<bar> \<le> 1 / 2 ^ 53" using tr by (simp add: abs_minus_commute)
  with a' have e2: "\<bar>of_int a * (\<rho> - t)\<bar> \<le> 1024 * (1 / 2 ^ 53)" by (rule abs_mult_le_const)
  have e3: "\<bar>of_int b * (t - \<rho>)\<bar> \<le> 1024 * (1 / 2 ^ 53)"
    using b' tr by (rule abs_mult_le_const)
  have "S - (of_int a * (1 - \<rho>) + of_int b * \<rho>) =
      (S - (A + B)) + (A - of_int a * u) + (B - of_int b * t)
      + of_int a * (u - (1 - t)) + of_int a * (\<rho> - t) + of_int b * (t - \<rho>)"
    by (simp add: algebra_simps)
  then have "\<bar>S - (of_int a * (1 - \<rho>) + of_int b * \<rho>)\<bar> \<le>
      1 / 2 ^ 42 + 1 / 2 ^ 43 + 1 / 2 ^ 43 + 1024 * (1 / 2 ^ 53) + 1024 * (1 / 2 ^ 53)
        + 1024 * (1 / 2 ^ 53)"
    using eS eA eB e1 e2 e3 by linarith
  also have "\<dots> \<le> (1::rat) / 2 ^ 40" by simp
  finally show ?thesis by (simp only: S)
qed

lemma gradient_ratio_error:
  assumes "0 \<le> i" "i < n"
  shows "\<bar>gradient_ratio n i - of_int (i + 1) / of_int (n + 1)\<bar> \<le> 1 / 2 ^ 53"
proof -
  let ?q = "of_int (i + 1) / of_int (n + 1) :: rat"
  have q: "0 \<le> ?q" "?q \<le> 1" using assms by (simp_all add: divide_le_eq_1)
  have "\<bar>?q\<bar> = ?q" using q(1) by (rule abs_of_nonneg)
  with q(2) have "\<bar>?q\<bar> < 2" by linarith
  then have "\<bar>?q\<bar> < 2 powi 1" by (simp only: power_int_1_right)
  then have "\<bar>b64_round ?q - ?q\<bar> \<le> 2 powi (1 - 54)"
    by (rule b64_round_error_bound) simp
  then show ?thesis by (simp add: gradient_ratio_def)
qed

lemma exact_mix_eq:
  assumes "0 \<le> n"
  shows "of_int a * (1 - of_int (i + 1) / of_int (n + 1)) + of_int b * (of_int (i + 1) / of_int (n + 1))
           = exact_mix a b n i"
proof -
  have N: "(of_int (n + 1) :: rat) \<noteq> 0" using assms by simp
  have g: "x * (1 - p / N) + y * (p / N) = (x * (N - p) + y * p) / N" if "N \<noteq> 0"
    for x y p N :: rat
    using that by (simp add: field_simps)
  have "(of_int (a * (n - i) + b * (i + 1)) :: rat) =
      of_int a * (of_int (n + 1) - of_int (i + 1)) + of_int b * of_int (i + 1)"
    by (simp add: algebra_simps)
  then show ?thesis by (simp only: exact_mix_def g [OF N])
qed

lemma mix_value_near_exact:
  assumes "\<bar>a\<bar> \<le> 1024" "\<bar>b\<bar> \<le> 1024" "0 \<le> i" "i < n"
  shows "\<bar>mix_value a b (gradient_ratio n i) - exact_mix a b n i\<bar> \<le> 1 / 2 ^ 40"
proof -
  have n: "0 \<le> n" using assms(3,4) by simp
  note r = gradient_ratio_unit(2,3) [OF assms(3,4)]
  from mix_value_error [OF assms(1,2) r gradient_ratio_error [OF assms(3,4)]]
  show ?thesis by (simp only: exact_mix_eq [OF n])
qed

lemma exact_mix_diff:
  assumes "0 \<le> n"
  shows "exact_mix a b n j - exact_mix a b n i = of_int ((b - a) * (j - i)) / of_int (n + 1)"
proof -
  have "(of_int (a * (n - j) + b * (j + 1)) :: rat) - of_int (a * (n - i) + b * (i + 1)) =
      of_int ((b - a) * (j - i))"
    by (simp add: algebra_simps)
  then show ?thesis by (simp only: exact_mix_def diff_divide_distrib [symmetric])
qed

lemma exact_mix_bounds:
  assumes "0 \<le> i" "i < n"
  shows "of_int (min a b) \<le> exact_mix a b n i" and "exact_mix a b n i \<le> of_int (max a b)"
proof -
  have np: "(0::rat) < of_int (n + 1)" using assms by simp
  have w: "0 \<le> n - i" "0 \<le> i + 1" "(n - i) + (i + 1) = n + 1" using assms by simp_all
  have "min a b * (n - i) \<le> a * (n - i)" "min a b * (i + 1) \<le> b * (i + 1)"
    using w by (simp_all add: mult_right_mono)
  then have "min a b * (n + 1) \<le> a * (n - i) + b * (i + 1)"
    by (simp add: algebra_simps)
  then have "(of_int (min a b * (n + 1)) :: rat) \<le> of_int (a * (n - i) + b * (i + 1))"
    by (simp only: of_int_le_iff)
  then show "of_int (min a b) \<le> exact_mix a b n i"
    using np by (simp add: exact_mix_def pos_le_divide_eq)
  have "a * (n - i) \<le> max a b * (n - i)" "b * (i + 1) \<le> max a b * (i + 1)"
    using w by (simp_all add: mult_right_mono)
  then have "a * (n - i) + b * (i + 1) \<le> max a b * (n + 1)"
    by (simp add: algebra_simps)
  then have "(of_int (a * (n - i) + b * (i + 1)) :: rat) \<le> of_int (max a b * (n + 1))"
    by (simp only: of_int_le_iff)
  then show "exact_mix a b n i \<le> of_int (max a b)"
    using np by (simp add: exact_mix_def pos_divide_le_eq)
qed

text \<open>A rounded mix lies between its two endpoint channels.\<close>

lemma mix_round_between:
  assumes "\<bar>a\<bar> \<le> 1024" "\<bar>b\<bar> \<le> 1024" "0 \<le> i" "i < n"
  shows "min a b \<le> round_half_even (mix_value a b (gradient_ratio n i))"
    and "round_half_even (mix_value a b (gradient_ratio n i)) \<le> max a b"
proof -
  let ?y = "mix_value a b (gradient_ratio n i)"
  note e = mix_value_near_exact [OF assms] and x = exact_mix_bounds [OF assms(3,4), of a b]
  have "(1::rat) / 2 ^ 40 < 1 / 2" by simp
  with e x have "of_int (min a b) - 1 / 2 < ?y" "?y < of_int (max a b) + 1 / 2" by linarith+
  then have "min a b \<le> \<lceil>?y - 1 / 2\<rceil>" "\<lfloor>?y + 1 / 2\<rfloor> \<le> max a b" by linarith+
  with round_half_even_bounds [of ?y]
  show "min a b \<le> round_half_even ?y" "round_half_even ?y \<le> max a b" by linarith+
qed

section \<open>Monotone channels\<close>

lemma frac_below_half:
  assumes "0 < q" "of_int m / of_int q < (of_int M + 1 / 2 :: rat)"
  shows "of_int m / of_int q + 1 / (2 * of_int q) \<le> (of_int M + 1 / 2 :: rat)"
proof -
  have qp: "(0::rat) < of_int q" using assms(1) by simp
  from assms(2) have "(of_int m :: rat) < (of_int M + 1 / 2) * of_int q"
    using qp by (simp add: pos_divide_less_eq)
  then have "(of_int (2 * m) :: rat) < of_int ((2 * M + 1) * q)"
    by (simp add: algebra_simps)
  then have "2 * m < (2 * M + 1) * q" by (simp only: of_int_less_iff)
  then have "2 * m + 1 \<le> (2 * M + 1) * q" by simp
  then have "(of_int (2 * m + 1) :: rat) \<le> of_int ((2 * M + 1) * q)"
    by (simp only: of_int_le_iff)
  then have "(2 * of_int m + 1 :: rat) \<le> (2 * of_int M + 1) * of_int q" by simp
  then have "(2 * of_int m + 1) / (2 * of_int q) \<le> ((2 * of_int M + 1) * of_int q) / (2 * of_int q :: rat)"
    using qp by (intro divide_right_mono) simp_all
  then show ?thesis using qp by (simp add: add_divide_distrib)
qed

lemma frac_above_half:
  assumes "0 < q" "(of_int L - 1 / 2 :: rat) < of_int m / of_int q"
  shows "(of_int L - 1 / 2 :: rat) \<le> of_int m / of_int q - 1 / (2 * of_int q)"
proof -
  have qp: "(0::rat) < of_int q" using assms(1) by simp
  from assms(2) have "(of_int L - 1 / 2) * of_int q < (of_int m :: rat)"
    using qp by (simp add: pos_less_divide_eq)
  then have "(of_int ((2 * L - 1) * q) :: rat) < of_int (2 * m)"
    by (simp add: algebra_simps)
  then have "(2 * L - 1) * q < 2 * m" by (simp only: of_int_less_iff)
  then have "(2 * L - 1) * q \<le> 2 * m - 1" by simp
  then have "(of_int ((2 * L - 1) * q) :: rat) \<le> of_int (2 * m - 1)"
    by (simp only: of_int_le_iff)
  then have "(2 * of_int L - 1) * of_int q \<le> (2 * of_int m - 1 :: rat)" by simp
  then have "((2 * of_int L - 1) * of_int q) / (2 * of_int q) \<le> (2 * of_int m - 1) / (2 * of_int q :: rat)"
    using qp by (intro divide_right_mono) simp_all
  then show ?thesis using qp by (simp add: diff_divide_distrib)
qed

text \<open>
  With at most \<open>2^32\<close> steps the float error is smaller than the distance of the exact mix
  from the next rounding boundary, unless it lies on one: the rounded float mix is one of
  the integers nearest to the exact mix.
\<close>

lemma round_envelope:
  assumes e: "\<bar>y - exact_mix a b n i\<bar> \<le> 1 / 2 ^ 40" and n: "0 \<le> n" "n < 2 ^ 32"
  shows "\<lceil>exact_mix a b n i - 1 / 2\<rceil> \<le> round_half_even y"
    and "round_half_even y \<le> \<lfloor>exact_mix a b n i + 1 / 2\<rfloor>"
proof -
  define q where "q = n + 1"
  define m where "m = a * (n - i) + b * (i + 1)"
  define x :: rat where "x = of_int m / of_int q"
  have x: "exact_mix a b n i = x" by (simp add: exact_mix_def x_def m_def q_def)
  have q: "0 < q" "q \<le> 2 ^ 32" using n by (simp_all add: q_def)
  have qp: "(0::rat) < of_int q" using q(1) by simp
  have "(of_int q :: rat) \<le> of_int (2 ^ 32)" using q(2) by (simp only: of_int_le_iff)
  then have "2 * (of_int q :: rat) \<le> 2 ^ 33" by simp
  then have "(1::rat) / 2 ^ 33 \<le> 1 / (2 * of_int q)"
    using qp by (intro divide_left_mono mult_pos_pos) simp_all
  moreover have "(1::rat) / 2 ^ 40 < 1 / 2 ^ 33" by simp
  moreover have "\<bar>y - x\<bar> \<le> 1 / 2 ^ 40" using e by (simp only: x)
  ultimately have g: "\<bar>y - x\<bar> < 1 / (2 * of_int q)" by linarith
  define M where "M = \<lfloor>x + 1 / 2\<rfloor>"
  define L where "L = \<lceil>x - 1 / 2\<rceil>"
  have "x < of_int M + 1 / 2" unfolding M_def by linarith
  from frac_below_half [OF q(1) this [unfolded x_def]]
  have "x + 1 / (2 * of_int q) \<le> of_int M + 1 / 2" by (simp add: x_def)
  with g have "y + 1 / 2 < of_int M + 1" by linarith
  then have "\<lfloor>y + 1 / 2\<rfloor> \<le> M" by linarith
  with round_half_even_bounds [of y] show "round_half_even y \<le> \<lfloor>exact_mix a b n i + 1 / 2\<rfloor>"
    by (simp only: x M_def) linarith
  have "of_int L - 1 / 2 < x" unfolding L_def by linarith
  from frac_above_half [OF q(1) this [unfolded x_def]]
  have "of_int L - 1 / 2 \<le> x - 1 / (2 * of_int q)" by (simp add: x_def)
  with g have "of_int L - 1 < y - 1 / 2" by linarith
  then have "L \<le> \<lceil>y - 1 / 2\<rceil>" by linarith
  with round_half_even_bounds [of y] show "\<lceil>exact_mix a b n i - 1 / 2\<rceil> \<le> round_half_even y"
    by (simp only: x L_def) linarith
qed

lemma floor_ceiling_step:
  fixes x x' :: rat
  assumes "x < x'"
  shows "\<lfloor>x + 1 / 2\<rfloor> \<le> \<lceil>x' - 1 / 2\<rceil>"
proof -
  have "of_int \<lfloor>x + 1 / 2\<rfloor> \<le> x + 1 / 2" by linarith
  with assms have "of_int \<lfloor>x + 1 / 2\<rfloor> - 1 < x' - 1 / 2" by linarith
  then show ?thesis by linarith
qed

lemma exact_mix_strict:
  assumes "a < b" "0 \<le> i" "i < j" "j < n"
  shows "exact_mix a b n i < exact_mix a b n j"
proof -
  have n: "0 \<le> n" using assms by simp
  have "0 < (b - a) * (j - i)" using assms by (intro mult_pos_pos) simp_all
  then have "(0::rat) < of_int ((b - a) * (j - i))" by (simp only: of_int_0_less_iff)
  moreover have "(0::rat) < of_int (n + 1)" using n by simp
  ultimately have "0 < exact_mix a b n j - exact_mix a b n i"
    by (simp only: exact_mix_diff [OF n] zero_less_divide_iff) simp
  then show ?thesis by simp
qed

lemma mix_channel_mono:
  assumes a: "\<bar>a\<bar> \<le> 1024" and b: "\<bar>b\<bar> \<le> 1024"
    and i: "0 \<le> i" "i < j" "j < n" and n: "n < 2 ^ 32" and ab: "a \<le> b"
  shows "round_half_even (mix_value a b (gradient_ratio n i))
           \<le> round_half_even (mix_value a b (gradient_ratio n j))"
proof (cases "a = b")
  case True
  have ii: "i < n" "0 \<le> j" using i by simp_all
  from mix_round_between [OF a b i(1) ii(1)] mix_round_between [OF a b ii(2) i(3)] True
  show ?thesis by simp
next
  case False
  with ab have lt: "a < b" by simp
  have ii: "i < n" "0 \<le> j" "0 \<le> n" using i by simp_all
  note ei = round_envelope(2) [OF mix_value_near_exact [OF a b i(1) ii(1)] ii(3) n]
    and ej = round_envelope(1) [OF mix_value_near_exact [OF a b ii(2) i(3)] ii(3) n]
  from floor_ceiling_step [OF exact_mix_strict [OF lt i]] ei ej show ?thesis by linarith
qed

lemma mix_channel_antimono:
  assumes a: "\<bar>a\<bar> \<le> 1024" and b: "\<bar>b\<bar> \<le> 1024"
    and i: "0 \<le> i" "i < j" "j < n" and n: "n < 2 ^ 32" and ab: "b \<le> a"
  shows "round_half_even (mix_value a b (gradient_ratio n j))
           \<le> round_half_even (mix_value a b (gradient_ratio n i))"
proof (cases "a = b")
  case True
  have ii: "i < n" "0 \<le> j" using i by simp_all
  from mix_round_between [OF a b i(1) ii(1)] mix_round_between [OF a b ii(2) i(3)] True
  show ?thesis by simp
next
  case False
  with ab have lt: "b < a" by simp
  have ii: "i < n" "0 \<le> j" "0 \<le> n" using i by simp_all
  have "0 < (a - b) * (j - i)" using lt i by (intro mult_pos_pos) simp_all
  then have "(b - a) * (j - i) < 0" by (simp add: algebra_simps)
  then have "(of_int ((b - a) * (j - i)) :: rat) < 0" by (simp only: of_int_less_0_iff)
  moreover have "(0::rat) < of_int (n + 1)" using ii(3) by simp
  ultimately have "exact_mix a b n j - exact_mix a b n i < 0"
    by (simp only: exact_mix_diff [OF ii(3)] divide_less_0_iff) simp
  then have s: "exact_mix a b n j < exact_mix a b n i" by simp
  note ei = round_envelope(1) [OF mix_value_near_exact [OF a b i(1) ii(1)] ii(3) n]
    and ej = round_envelope(2) [OF mix_value_near_exact [OF a b ii(2) i(3)] ii(3) n]
  from floor_ceiling_step [OF s] ei ej show ?thesis by linarith
qed

lemma sorted_wrt_endpoints_map:
  fixes r :: "int \<Rightarrow> int"
  assumes "P A B"
    and "\<And>i. 0 \<le> i \<Longrightarrow> i < n \<Longrightarrow> P A (r i) \<and> P (r i) B"
    and "\<And>i j. 0 \<le> i \<Longrightarrow> i < j \<Longrightarrow> j < n \<Longrightarrow> P (r i) (r j)"
  shows "sorted_wrt P (A # map r [0..n - 1] @ [B])"
proof -
  have "sorted_wrt (\<lambda>i j. P (r i) (r j)) [0..n - 1]"
  proof (rule sorted_wrt_mono_rel [of _ "(<)"])
    show "sorted_wrt (<) [0..n - 1]" by simp
    fix i j assume "i \<in> set [0..n - 1]" "j \<in> set [0..n - 1]" "i < j"
    then show "P (r i) (r j)" by (intro assms(3)) simp_all
  qed
  then have "sorted_wrt P (map r [0..n - 1])" by (simp add: sorted_wrt_map)
  then show ?thesis
    using assms(1,2) by (auto simp: sorted_wrt_append)
qed

section \<open>Rounding at a known exponent\<close>

lemma b64_round_at:
  assumes "2 powi k \<le> \<bar>x\<bar>" "\<bar>x\<bar> < 2 powi (k + 1)" "- 1022 \<le> k"
  shows "b64_round x = of_int (round_half_even (x / 2 powi (k - 52))) * 2 powi (k - 52)"
proof -
  have nz: "x \<noteq> 0"
  proof
    assume "x = 0"
    with assms(1) have "(2::rat) powi k \<le> 0" by simp
    moreover have "(0::rat) < 2 powi k" by simp
    ultimately show False by linarith
  qed
  have "ilog2 \<bar>x\<bar> = k" using assms(1,2) by (rule ilog2_unique)
  then have "b64_exp x = k - 52" using assms(3) by (simp add: b64_exp_def)
  with nz show ?thesis by (simp add: b64_round_def)
qed

lemma b64_round_evalI:
  assumes "2 powi k \<le> \<bar>x\<bar>" "\<bar>x\<bar> < 2 powi (k + 1)" "- 1022 \<le> k"
    and "of_int m - 1 / 2 < x / 2 powi (k - 52)" "x / 2 powi (k - 52) < of_int m + 1 / 2"
  shows "b64_round x = of_int m * 2 powi (k - 52)"
  using b64_round_at [OF assms(1-3)] round_half_even_eqI [OF assms(4,5)] by simp

lemma b64_round_tieI:
  assumes "2 powi k \<le> \<bar>x\<bar>" "\<bar>x\<bar> < 2 powi (k + 1)" "- 1022 \<le> k"
    and "x / 2 powi (k - 52) = of_int m + 1 / 2"
  shows "b64_round x = of_int (if even m then m else m + 1) * 2 powi (k - 52)"
  using b64_round_at [OF assms(1-3)] round_half_even_half [of m] by (simp only: assms(4))

section \<open>A gradient between two equal, very large saturations\<close>

text \<open>
  In the range \<open>(255,255,255)\<close> the external saturation \<open>15 * 2^50 = 16888498602639360\<close> is
  its own canonical value.  With two steps the ratios are the floats nearest to \<open>1/3\<close> and
  \<open>2/3\<close>; the first interior mix comes out two units above both endpoints.
\<close>

lemma example_large_ratio:
  "gradient_ratio 2 0 = 6004799503160661 / 2 ^ 54"
  "gradient_ratio 2 1 = 6004799503160661 / 2 ^ 53"
proof -
  have "b64_round (1 / 3) = 6004799503160661 / 2 ^ 54"
    using b64_round_evalI [of "- 2" "1 / 3" 6004799503160661] by simp
  then show "gradient_ratio 2 0 = 6004799503160661 / 2 ^ 54"
    by (simp add: gradient_ratio_def)
  have "b64_round (2 / 3) = 6004799503160661 / 2 ^ 53"
    using b64_round_evalI [of "- 1" "2 / 3" 6004799503160661] by simp
  then show "gradient_ratio 2 1 = 6004799503160661 / 2 ^ 53"
    by (simp add: gradient_ratio_def)
qed

lemma example_large_mix:
  "mix_value 16888498602639360 16888498602639360 (6004799503160661 / 2 ^ 54) = 16888498602639362"
  "mix_value 16888498602639360 16888498602639360 (6004799503160661 / 2 ^ 53) = 16888498602639360"
proof -
  have fa: "b64_round (of_int 16888498602639360) = 16888498602639360"
    using b64_round_exact [of 15 50] by simp
  have u0: "b64_round (1 - 6004799503160661 / 2 ^ 54) = 6004799503160662 / 2 ^ 53"
    using b64_round_tieI [of "- 1" "1 - 6004799503160661 / 2 ^ 54" 6004799503160661] by simp
  have a0: "b64_round (16888498602639360 * (6004799503160662 / 2 ^ 53)) = 11258999068426242"
    using b64_round_evalI [of 53 "16888498602639360 * (6004799503160662 / 2 ^ 53)" 5629499534213121]
    by simp
  have b0: "b64_round (16888498602639360 * (6004799503160661 / 2 ^ 54)) = 5629499534213120"
    using b64_round_evalI [of 52 "16888498602639360 * (6004799503160661 / 2 ^ 54)" 5629499534213120]
    by simp
  have s0: "b64_round (11258999068426242 + 5629499534213120) = 16888498602639362"
    using b64_round_exact [of 8444249301319681 1] by simp
  show "mix_value 16888498602639360 16888498602639360 (6004799503160661 / 2 ^ 54) = 16888498602639362"
    by (simp only: mix_value_def fa u0 a0 b0 s0)
  have u1: "b64_round (1 - 6004799503160661 / 2 ^ 53) = 6004799503160662 / 2 ^ 54"
    using b64_round_exact [of 6004799503160662 "- 54"] by (simp add: field_simps)
  have a1: "b64_round (16888498602639360 * (6004799503160662 / 2 ^ 54)) = 5629499534213121"
    using b64_round_evalI [of 52 "16888498602639360 * (6004799503160662 / 2 ^ 54)" 5629499534213121]
    by simp
  have b1: "b64_round (16888498602639360 * (6004799503160661 / 2 ^ 53)) = 11258999068426240"
    using b64_round_evalI [of 53 "16888498602639360 * (6004799503160661 / 2 ^ 53)" 5629499534213120]
    by simp
  have s1: "b64_round (5629499534213121 + 11258999068426240) = 16888498602639360"
    using b64_round_tieI [of 53 "5629499534213121 + 11258999068426240" 8444249301319680] by simp
  show "mix_value 16888498602639360 16888498602639360 (6004799503160661 / 2 ^ 53) = 16888498602639360"
    by (simp only: mix_value_def fa u1 a1 b1 s1)
qed

section \<open>Monotone saturation and value\<close>

lemma channel_bounds:
  assumes "0 \<le> (c::int)" "c \<le> 255"
  shows "\<bar>c\<bar> \<le> 1024" and "\<bar>c\<bar> \<le> 2 ^ 1000"
proof -
  show "\<bar>c\<bar> \<le> 1024" using assms by simp
  have "(255::int) \<le> 2 ^ 1000" by simp
  with assms show "\<bar>c\<bar> \<le> 2 ^ 1000" by linarith
qed

lemma channel_row_sorted:
  assumes A: "0 \<le> A" "A \<le> 255" and B: "0 \<le> B" "B \<le> 255" and n: "n < 2 ^ 32"
  shows "A \<le> B \<Longrightarrow>
           sorted (A # map (\<lambda>i. round_half_even (mix_value A B (gradient_ratio n i))) [0..n - 1] @ [B])"
    and "B \<le> A \<Longrightarrow>
           sorted (rev (A # map (\<lambda>i. round_half_even (mix_value A B (gradient_ratio n i))) [0..n - 1] @ [B]))"
proof -
  let ?r = "\<lambda>i. round_half_even (mix_value A B (gradient_ratio n i))"
  note a = channel_bounds(1) [OF A] and b = channel_bounds(1) [OF B]
  {
    assume ab: "A \<le> B"
    have "sorted_wrt (\<le>) (A # map ?r [0..n - 1] @ [B])"
    proof (rule sorted_wrt_endpoints_map)
      show "A \<le> B" by (rule ab)
      fix i :: int assume i: "0 \<le> i" "i < n"
      from mix_round_between [OF a b i] ab show "A \<le> ?r i \<and> ?r i \<le> B" by simp
    next
      fix i j :: int assume "0 \<le> i" "i < j" "j < n"
      then show "?r i \<le> ?r j" by (intro mix_channel_mono [OF a b _ _ _ n ab])
    qed
    then show "sorted (A # map ?r [0..n - 1] @ [B])" .
  }
  {
    assume ba: "B \<le> A"
    have "sorted_wrt (\<lambda>x y. y \<le> x) (A # map ?r [0..n - 1] @ [B])"
    proof (rule sorted_wrt_endpoints_map)
      show "B \<le> A" by (rule ba)
      fix i :: int assume i: "0 \<le> i" "i < n"
      from mix_round_between [OF a b i] ba show "?r i \<le> A \<and> B \<le> ?r i" by simp
    next
      fix i j :: int assume "0 \<le> i" "i < j" "j < n"
      then show "?r j \<le> ?r i" by (intro mix_channel_antimono [OF a b _ _ _ n ba])
    qed
    then show "sorted (rev (A # map ?r [0..n - 1] @ [B]))"
      by (simp only: sorted_wrt_rev)
  }
qed

text \<open>
  Claim C6 as stated fails for channels far outside the canonical scale: two equal
  endpoints of saturation \<open>15 * 2^50\<close> in the range \<open>(255,255,255)\<close> and two steps give the
  saturations \<open>a, a + 2, a, a\<close>, which are neither non-decreasing nor non-increasing.
\<close>

theorem gradient_monotone_counterexample:
  "add_gradient (0, 16888498602639360, 0) (0, 16888498602639360, 0) 2 True
       (init (255, 255, 255)) =
     (None, \<lparr>rows = [[(0, 16888498602639360, 0), (0, 16888498602639362, 0),
                       (0, 16888498602639360, 0), (0, 16888498602639360, 0)]],
             hsv_range = (255, 255, 255)\<rparr>)
   \<and> \<not> sorted (map saturation [(0, 16888498602639360, 0), (0, 16888498602639362, 0),
                       (0, 16888498602639360, 0), (0, 16888498602639360, 0)])"
proof -
  have c0: "canonical_channel 0 255 = 0" by (rule canonical_channel_eqI) simp_all
  have "b64_round (of_int (255 * 16888498602639360) / of_int 255) = 16888498602639360"
    using b64_round_exact [of 15 50] by simp
  then have c1: "canonical_channel 16888498602639360 255 = 16888498602639360"
    using round_half_even_of_int [of 16888498602639360]
    by (simp only: canonical_channel_def) simp
  have "hsv_adjust_range (0, 16888498602639360, 0) (255, 255, 255) =
      Inr (canonical_channel 0 255, canonical_channel 16888498602639360 255, canonical_channel 0 255)"
    using hsv_adjust_range_bounded [of "(255, 255, 255)" "(0, 16888498602639360, 0)"] by simp
  then have a: "hsv_adjust_range (0, 16888498602639360, 0) (hsv_range (init (255, 255, 255))) =
      Inr (0, 16888498602639360, 0)"
    by (simp add: c0 c1 init_def)
  have z: "mix_value 0 0 t = 0" for t
    by (simp add: mix_value_def b64_round_zero)
  have r0: "round_half_even (16888498602639362 :: rat) = 16888498602639362"
    and r1: "round_half_even (16888498602639360 :: rat) = 16888498602639360"
    by (rule round_half_even_numeral)+
  have i: "[0..1] = [0, 1 :: int]" by (simp add: upto.simps)
  have i0: "interior_color (0, 16888498602639360, 0) (0, 16888498602639360, 0) 2 0 =
      (0, 16888498602639362, 0)"
    by (simp only: interior_color_def fst_conv snd_conv example_large_ratio example_large_mix
        z r0 round_half_even_zero) simp
  have i1: "interior_color (0, 16888498602639360, 0) (0, 16888498602639360, 0) 2 1 =
      (0, 16888498602639360, 0)"
    by (simp only: interior_color_def fst_conv snd_conv example_large_ratio example_large_mix
        z r1 round_half_even_zero) simp
  have "add_gradient (0, 16888498602639360, 0) (0, 16888498602639360, 0) 2 True
       (init (255, 255, 255)) =
     (None, (init (255, 255, 255))\<lparr>rows := rows (init (255, 255, 255)) @
        [(0, 16888498602639360, 0) #
         map (interior_color (0, 16888498602639360, 0) (0, 16888498602639360, 0) 2) [0..2 - 1]
         @ [(0, 16888498602639360, 0)]]\<rparr>)"
    using add_gradient_Fin [OF a a, of 2 True] by simp
  then show ?thesis
    by (simp add: i i0 i1 init_def saturation_def)
qed

text \<open>
  Claim C6, as amended.  When both endpoints have canonical channels in \<open>[0, 255]\<close> (as every
  colour within the configured range has) and \<open>0 \<le> number_in_between < 2^32\<close>,
  \<open>add_gradient\<close> with \<open>hue_ascending = True\<close> appends a row along which saturation is
  non-decreasing if the first endpoint's saturation is at most the second's and
  non-increasing if it is at least the second's; the same holds for value.
\<close>

theorem gradient_channels_monotone:
  assumes a: "hsv_adjust_range color1 (hsv_range p) = Inr a"
    and b: "hsv_adjust_range color2 (hsv_range p) = Inr b"
    and ha: "0 \<le> hue a" "hue a \<le> 255" and sa: "0 \<le> saturation a" "saturation a \<le> 255"
    and va: "0 \<le> val a" "val a \<le> 255"
    and hb: "0 \<le> hue b" "hue b \<le> 255" and sb: "0 \<le> saturation b" "saturation b \<le> 255"
    and vb: "0 \<le> val b" "val b \<le> 255"
    and n: "0 \<le> n" "n < 2 ^ 32"
  shows "\<exists>row. add_gradient color1 color2 n True p = (None, p\<lparr>rows := rows p @ [row]\<rparr>)
           \<and> (saturation a \<le> saturation b \<longrightarrow> sorted (map saturation row))
           \<and> (saturation b \<le> saturation a \<longrightarrow> sorted (rev (map saturation row)))
           \<and> (val a \<le> val b \<longrightarrow> sorted (map val row))
           \<and> (val b \<le> val a \<longrightarrow> sorted (rev (map val row)))"
proof -
  define row where "row = a # map (interior_color a b n) [0..n - 1] @ [b]"
  note ba = channel_bounds(2) [OF ha [unfolded hue_def]]
    channel_bounds(2) [OF sa [unfolded saturation_def]] channel_bounds(2) [OF va [unfolded val_def]]
  note bb = channel_bounds(2) [OF hb [unfolded hue_def]]
    channel_bounds(2) [OF sb [unfolded saturation_def]] channel_bounds(2) [OF vb [unfolded val_def]]
  have g: "add_gradient color1 color2 n True p = (None, p\<lparr>rows := rows p @ [row]\<rparr>)"
    using add_gradient_Fin [OF a b ba bb, of n True] by (simp add: row_def)
  have ms: "map saturation row =
      saturation a # map (\<lambda>i. round_half_even
          (mix_value (saturation a) (saturation b) (gradient_ratio n i))) [0..n - 1] @ [saturation b]"
    by (simp add: row_def interior_color_def saturation_def)
  have mv: "map val row =
      val a # map (\<lambda>i. round_half_even
          (mix_value (val a) (val b) (gradient_ratio n i))) [0..n - 1] @ [val b]"
    by (simp add: row_def interior_color_def val_def)
  note s = channel_row_sorted [OF sa sb n(2), folded ms]
    and v = channel_row_sorted [OF va vb n(2), folded mv]
  from g s v show ?thesis by blast
qed

text \<open>The theorem at the first call of the script: saturation rises from 48 to 153 and
  value stays at 252.\<close>

theorem gradient_channels_monotone_witness:
  "\<exists>row. add_gradient (48, 19, 99) (16, 60, 99) 2 True (init (360, 100, 100)) =
            (None, \<lparr>rows = [row], hsv_range = (360, 100, 100)\<rparr>)
        \<and> sorted (map saturation row) \<and> sorted (map val row) \<and> sorted (rev (map val row))"
proof -
  have a: "hsv_adjust_range (48, 19, 99) (hsv_range (init (360, 100, 100))) = Inr (34, 48, 252)"
    by (simp add: init_def canonical_example_first)
  have b: "hsv_adjust_range (16, 60, 99) (hsv_range (init (360, 100, 100))) = Inr (11, 153, 252)"
    by (simp add: init_def canonical_example_second)
  have "\<exists>row. add_gradient (48, 19, 99) (16, 60, 99) 2 True (init (360, 100, 100)) =
            (None, (init (360, 100, 100))\<lparr>rows := rows (init (360, 100, 100)) @ [row]\<rparr>)
      \<and> (saturation (34, 48, 252) \<le> saturation (11, 153, 252) \<longrightarrow> sorted (map saturation row))
      \<and> (saturation (11, 153, 252) \<le> saturation (34, 48, 252) \<longrightarrow> sorted (rev (map saturation row)))
      \<and> (val (34, 48, 252) \<le> val (11, 153, 252) \<longrightarrow> sorted (map val row))
      \<and> (val (11, 153, 252) \<le> val (34, 48, 252) \<longrightarrow> sorted (rev (map val row)))"
    by (rule gradient_channels_monotone [OF a b]) (simp_all add: hue_def saturation_def val_def)
  then show ?thesis
    by (simp add: init_def saturation_def val_def)
qed

section \<open>Descending gradients\<close>

lemma short_arc_mod:
  assumes "248 \<le> h" "h \<le> 262"
  shows "short_arc (h mod 255)"
  unfolding short_arc_def using assms by presburger

lemma canonical_example_350:
  "hsv_adjust_range (350, 50, 50) (360, 100, 100) = Inr (248, 128, 128)"
proof -
  have "canonical_channel 350 360 = 248" by (rule canonical_channel_eqI) simp_all
  moreover have "canonical_channel 50 100 = 128"
    using canonical_channel_tie [of 100 50 127] by simp
  ultimately show ?thesis by (simp add: hsv_adjust_range_in_range)
qed

lemma canonical_example_10:
  "hsv_adjust_range (10, 50, 50) (360, 100, 100) = Inr (7, 128, 128)"
proof -
  have "canonical_channel 10 360 = 7" by (rule canonical_channel_eqI) simp_all
  moreover have "canonical_channel 50 100 = 128"
    using canonical_channel_tie [of 100 50 127] by simp
  ultimately show ?thesis by (simp add: hsv_adjust_range_in_range)
qed

lemma canonical_example_360:
  "hsv_adjust_range (360, 50, 50) (360, 100, 100) = Inr (255, 128, 128)"
proof -
  have "canonical_channel 360 360 = 255" by (rule canonical_channel_eqI) simp_all
  moreover have "canonical_channel 50 100 = 128"
    using canonical_channel_tie [of 100 50 127] by simp
  ultimately show ?thesis by (simp add: hsv_adjust_range_in_range)
qed

lemma example_descending_mix:
  "round_half_even (mix_value 503 7 (gradient_ratio 3 0)) = 379"
  "round_half_even (mix_value 503 7 (gradient_ratio 3 1)) = 255"
  "round_half_even (mix_value 503 7 (gradient_ratio 3 2)) = 131"
  "round_half_even (mix_value 128 128 (gradient_ratio 3 0)) = 128"
  "round_half_even (mix_value 128 128 (gradient_ratio 3 1)) = 128"
  "round_half_even (mix_value 128 128 (gradient_ratio 3 2)) = 128"
  by (simp_all add: mix_value_def gradient_ratio_def dyadic_eval)

text \<open>
  Claim C2 as stated fails twice.  From \<open>(350,50,50)\<close> to \<open>(10,50,50)\<close> in the range
  \<open>(360,100,100)\<close> with three steps and \<open>hue_ascending = False\<close> the hue is interpolated from
  \<open>248 + 255 = 503\<close> down to 7, and the interior hues 124 and 131 lie on the long arc through
  128, not on the short arc through 0.  And an endpoint is stored as converted, not reduced:
  the hue 360 stays 255.
\<close>

theorem add_gradient_descending_counterexample:
  "add_gradient (350, 50, 50) (10, 50, 50) 3 False (init (360, 100, 100)) =
     (None, \<lparr>rows = [[(248, 128, 128), (124, 128, 128), (0, 128, 128), (131, 128, 128),
                       (7, 128, 128)]],
             hsv_range = (360, 100, 100)\<rparr>)
   \<and> \<not> short_arc 124 \<and> \<not> short_arc 131
   \<and> add_gradient (360, 50, 50) (10, 50, 50) 0 False (init (360, 100, 100)) =
     (None, \<lparr>rows = [[(255, 128, 128), (7, 128, 128)]], hsv_range = (360, 100, 100)\<rparr>)
   \<and> (255 :: int) mod 255 \<noteq> 255"
proof -
  have a: "hsv_adjust_range (350, 50, 50) (hsv_range (init (360, 100, 100))) = Inr (248, 128, 128)"
    by (simp add: init_def canonical_example_350)
  have b: "hsv_adjust_range (10, 50, 50) (hsv_range (init (360, 100, 100))) = Inr (7, 128, 128)"
    by (simp add: init_def canonical_example_10)
  have c: "hsv_adjust_range (360, 50, 50) (hsv_range (init (360, 100, 100))) = Inr (255, 128, 128)"
    by (simp add: init_def canonical_example_360)
  have i: "[0..2] = [0, 1, 2 :: int]" by (simp add: upto.simps)
  have i0: "interior_color (503, 128, 128) (7, 128, 128) 3 0 = (124, 128, 128)"
    and i1: "interior_color (503, 128, 128) (7, 128, 128) 3 1 = (0, 128, 128)"
    and i2: "interior_color (503, 128, 128) (7, 128, 128) 3 2 = (131, 128, 128)"
    by (simp_all add: interior_color_def example_descending_mix)
  have "add_gradient (350, 50, 50) (10, 50, 50) 3 False (init (360, 100, 100)) =
     (None, \<lparr>rows = [[(248, 128, 128), (124, 128, 128), (0, 128, 128), (131, 128, 128),
                       (7, 128, 128)]],
             hsv_range = (360, 100, 100)\<rparr>)"
    using add_gradient_Fin [OF a b, of 3 False] by (simp add: i i0 i1 i2 init_def)
  moreover have "add_gradient (360, 50, 50) (10, 50, 50) 0 False (init (360, 100, 100)) =
     (None, \<lparr>rows = [[(255, 128, 128), (7, 128, 128)]], hsv_range = (360, 100, 100)\<rparr>)"
    using add_gradient_Fin [OF c b, of 0 False] by (simp add: init_def)
  ultimately show ?thesis by (simp add: short_arc_def)
qed

text \<open>
  Claim C2, as amended.  With \<open>hue_ascending = False\<close>, when both endpoints have canonical
  values \<open>a\<close> and \<open>b\<close> (of magnitude at most \<open>2^1000\<close>) and \<open>number_in_between = n \<ge> 0\<close>, the
  appended row starts with \<open>a\<close> and ends with \<open>b\<close>, both as converted, without the added 255
  and without reduction; the interior colour at position \<open>i + 1\<close> has the hue
  \<open>round((a[0] + 255)*(1-t) + b[0]*t) mod 255\<close> with \<open>t = (i+1)/(n+1)\<close>, and saturation and
  value mixed as in the ascending case.  For the endpoints \<open>(10,s,v)\<close> and \<open>(350,s,v)\<close> of a
  palette in the range \<open>(360,100,100)\<close>, in this order, every hue of the row lies on the short
  arc through 0, for every number of steps.
\<close>

theorem add_gradient_descending_row:
  assumes a: "hsv_adjust_range color1 (hsv_range p) = Inr a"
    and b: "hsv_adjust_range color2 (hsv_range p) = Inr b"
    and ba: "\<bar>fst a\<bar> \<le> 2 ^ 1000" "\<bar>fst (snd a)\<bar> \<le> 2 ^ 1000" "\<bar>snd (snd a)\<bar> \<le> 2 ^ 1000"
    and bb: "\<bar>fst b\<bar> \<le> 2 ^ 1000" "\<bar>fst (snd b)\<bar> \<le> 2 ^ 1000" "\<bar>snd (snd b)\<bar> \<le> 2 ^ 1000"
    and n: "0 \<le> n"
  shows "(\<exists>row. add_gradient color1 color2 n False p = (None, p\<lparr>rows := rows p @ [row]\<rparr>)
           \<and> length row = nat (n + 2)
           \<and> row ! 0 = a
           \<and> row ! nat (n + 1) = b
           \<and> (\<forall>i. 0 \<le> i \<and> i < n \<longrightarrow>
                 row ! nat (i + 1) =
                   (round_half_even (mix_value (hue a + 255) (hue b) (gradient_ratio n i)) mod 255,
                    round_half_even (mix_value (saturation a) (saturation b) (gradient_ratio n i)),
                    round_half_even (mix_value (val a) (val b) (gradient_ratio n i)))))
       \<and> (\<forall>m s v. 0 \<le> m \<and> 0 \<le> s \<and> s \<le> 100 \<and> 0 \<le> v \<and> v \<le> 100 \<longrightarrow>
            (\<exists>row. add_gradient (10, s, v) (350, s, v) m False (init (360, 100, 100)) =
                      (None, \<lparr>rows = [row], hsv_range = (360, 100, 100)\<rparr>)
                 \<and> length row = nat (m + 2)
                 \<and> list_all (\<lambda>c. short_arc (hue c)) row))"
proof -
  define s0 where "s0 = (fst a + 255, fst (snd a), snd (snd a))"
  define row where "row = a # map (interior_color s0 b n) [0..n - 1] @ [b]"
  have "add_gradient color1 color2 n False p = (None, p\<lparr>rows := rows p @ [row]\<rparr>)"
    using add_gradient_Fin [OF a b ba bb, of n False] by (simp add: row_def s0_def)
  moreover note gradient_row_shape [OF n, where a = a and g = "interior_color s0 b n" and b = b,
      folded row_def]
  ultimately have general: "\<exists>row. add_gradient color1 color2 n False p = (None, p\<lparr>rows := rows p @ [row]\<rparr>)
           \<and> length row = nat (n + 2)
           \<and> row ! 0 = a
           \<and> row ! nat (n + 1) = b
           \<and> (\<forall>i. 0 \<le> i \<and> i < n \<longrightarrow>
                 row ! nat (i + 1) =
                   (round_half_even (mix_value (hue a + 255) (hue b) (gradient_ratio n i)) mod 255,
                    round_half_even (mix_value (saturation a) (saturation b) (gradient_ratio n i)),
                    round_half_even (mix_value (val a) (val b) (gradient_ratio n i))))"
    by (intro exI [of _ row]) (simp add: interior_color_def hue_def saturation_def val_def s0_def)
  have arc: "\<exists>row. add_gradient (10, s, v) (350, s, v) m False (init (360, 100, 100)) =
                      (None, \<lparr>rows = [row], hsv_range = (360, 100, 100)\<rparr>)
                 \<and> length row = nat (m + 2)
                 \<and> list_all (\<lambda>c. short_arc (hue c)) row"
    if m: "0 \<le> m" and s: "0 \<le> s" "s \<le> 100" and v: "0 \<le> v" "v \<le> 100" for m s v :: int
  proof -
    define cs where "cs = canonical_channel s 100"
    define cv where "cv = canonical_channel v 100"
    have h10: "canonical_channel 10 360 = 7" by (rule canonical_channel_eqI) simp_all
    have h350: "canonical_channel 350 360 = 248" by (rule canonical_channel_eqI) simp_all
    note rs = channel_in_range(2,3) [OF _ s, folded cs_def, simplified]
      and rv = channel_in_range(2,3) [OF _ v, folded cv_def, simplified]
    have c1: "hsv_adjust_range (10, s, v) (hsv_range (init (360, 100, 100))) = Inr (7, cs, cv)"
      using s v by (simp add: init_def hsv_adjust_range_in_range h10 cs_def cv_def)
    have c2: "hsv_adjust_range (350, s, v) (hsv_range (init (360, 100, 100))) = Inr (248, cs, cv)"
      using s v by (simp add: init_def hsv_adjust_range_in_range h350 cs_def cv_def)
    note bs = channel_bounds(2) [OF rs] and bv = channel_bounds(2) [OF rv]
    have b7: "\<bar>7 :: int\<bar> \<le> 2 ^ 1000" and b248: "\<bar>248 :: int\<bar> \<le> 2 ^ 1000" by simp_all
    define g where "g = interior_color (262, cs, cv) (248, cs, cv) m"
    define row where "row = (7, cs, cv) # map g [0..m - 1] @ [(248, cs, cv)]"
    have ba: "\<bar>fst (7 :: int, cs, cv)\<bar> \<le> 2 ^ 1000" "\<bar>fst (snd (7 :: int, cs, cv))\<bar> \<le> 2 ^ 1000"
      "\<bar>snd (snd (7 :: int, cs, cv))\<bar> \<le> 2 ^ 1000"
      using b7 bs bv by (simp_all only: fst_conv snd_conv)
    have bb: "\<bar>fst (248 :: int, cs, cv)\<bar> \<le> 2 ^ 1000" "\<bar>fst (snd (248 :: int, cs, cv))\<bar> \<le> 2 ^ 1000"
      "\<bar>snd (snd (248 :: int, cs, cv))\<bar> \<le> 2 ^ 1000"
      using b248 bs bv by (simp_all only: fst_conv snd_conv)
    have "add_gradient (10, s, v) (350, s, v) m False (init (360, 100, 100)) =
        (None, (init (360, 100, 100))\<lparr>rows := rows (init (360, 100, 100)) @ [row]\<rparr>)"
      by (simp add: add_gradient_Fin [OF c1 c2 ba bb, of m False] row_def g_def)
    then have g1: "add_gradient (10, s, v) (350, s, v) m False (init (360, 100, 100)) =
        (None, \<lparr>rows = [row], hsv_range = (360, 100, 100)\<rparr>)"
      by (simp add: init_def)
    have len: "length row = nat (m + 2)" using m by (simp add: row_def nat_add_distrib)
    have "short_arc (hue (g i))" if "i \<in> set [0..m - 1]" for i
    proof -
      from set_upto_bounds [OF that] have i: "0 \<le> i" "i < m" by simp_all
      have "\<bar>262 :: int\<bar> \<le> 1024" "\<bar>248 :: int\<bar> \<le> 1024" by simp_all
      from mix_round_between [OF this i]
      have "248 \<le> round_half_even (mix_value 262 248 (gradient_ratio m i))"
        "round_half_even (mix_value 262 248 (gradient_ratio m i)) \<le> 262" by simp_all
      from short_arc_mod [OF this] show ?thesis
        by (simp add: g_def interior_color_def hue_def)
    qed
    then have "list_all (\<lambda>c. short_arc (hue c)) (map g [0..m - 1])"
      by (simp add: list_all_iff)
    then have "list_all (\<lambda>c. short_arc (hue c)) row"
      by (simp add: row_def hue_def short_arc_def)
    with g1 len show ?thesis by blast
  qed
  from general arc show ?thesis by blast
qed

text \<open>The theorem at the second call of the script, from \<open>(16,60,99)\<close> to \<open>(217,25,12)\<close> with
  five steps, and its second part at three steps between \<open>(10,50,50)\<close> and \<open>(350,50,50)\<close>.\<close>

lemma canonical_example_third:
  "hsv_adjust_range (217, 25, 12) (360, 100, 100) = Inr (154, 64, 31)"
proof -
  have "canonical_channel 217 360 = 154" by (rule canonical_channel_eqI) simp_all
  moreover have "canonical_channel 25 100 = 64" by (rule canonical_channel_eqI) simp_all
  moreover have "canonical_channel 12 100 = 31" by (rule canonical_channel_eqI) simp_all
  ultimately show ?thesis by (simp add: hsv_adjust_range_in_range)
qed

theorem add_gradient_descending_row_witness:
  "(\<exists>row. add_gradient (16, 60, 99) (217, 25, 12) 5 False (init (360, 100, 100)) =
            (None, \<lparr>rows = [row], hsv_range = (360, 100, 100)\<rparr>)
        \<and> length row = 7 \<and> row ! 0 = (11, 153, 252) \<and> row ! 6 = (154, 64, 31))
   \<and> (\<exists>row. add_gradient (10, 50, 50) (350, 50, 50) 3 False (init (360, 100, 100)) =
            (None, \<lparr>rows = [row], hsv_range = (360, 100, 100)\<rparr>)
        \<and> length row = 5 \<and> list_all (\<lambda>c. short_arc (hue c)) row)"
proof -
  have a: "hsv_adjust_range (16, 60, 99) (hsv_range (init (360, 100, 100))) = Inr (11, 153, 252)"
    by (simp add: init_def canonical_example_second)
  have b: "hsv_adjust_range (217, 25, 12) (hsv_range (init (360, 100, 100))) = Inr (154, 64, 31)"
    by (simp add: init_def canonical_example_third)
  have ba: "\<bar>fst (11 :: int, 153 :: int, 252 :: int)\<bar> \<le> 2 ^ 1000"
    "\<bar>fst (snd (11 :: int, 153 :: int, 252 :: int))\<bar> \<le> 2 ^ 1000"
    "\<bar>snd (snd (11 :: int, 153 :: int, 252 :: int))\<bar> \<le> 2 ^ 1000" by simp_all
  have bb: "\<bar>fst (154 :: int, 64 :: int, 31 :: int)\<bar> \<le> 2 ^ 1000"
    "\<bar>fst (snd (154 :: int, 64 :: int, 31 :: int))\<bar> \<le> 2 ^ 1000"
    "\<bar>snd (snd (154 :: int, 64 :: int, 31 :: int))\<bar> \<le> 2 ^ 1000" by simp_all
  have n: "(0::int) \<le> 5" by simp
  note t = add_gradient_descending_row [OF a b ba bb n]
  from t [THEN conjunct1]
  obtain row where "add_gradient (16, 60, 99) (217, 25, 12) 5 False (init (360, 100, 100)) =
      (None, (init (360, 100, 100))\<lparr>rows := rows (init (360, 100, 100)) @ [row]\<rparr>)"
    "length row = nat (5 + 2)" "row ! 0 = (11, 153, 252)" "row ! nat (5 + 1) = (154, 64, 31)"
    by blast
  then have first: "\<exists>row. add_gradient (16, 60, 99) (217, 25, 12) 5 False (init (360, 100, 100)) =
            (None, \<lparr>rows = [row], hsv_range = (360, 100, 100)\<rparr>)
        \<and> length row = 7 \<and> row ! 0 = (11, 153, 252) \<and> row ! 6 = (154, 64, 31)"
    by (intro exI [of _ row]) (simp add: init_def eval_nat_numeral)
  have h: "(0::int) \<le> 3 \<and> (0::int) \<le> 50 \<and> (50::int) \<le> 100 \<and> (0::int) \<le> 50 \<and> (50::int) \<le> 100"
    by simp
  from t [THEN conjunct2, rule_format, OF h]
  obtain row where "add_gradient (10, 50, 50) (350, 50, 50) 3 False (init (360, 100, 100)) =
      (None, \<lparr>rows = [row], hsv_range = (360, 100, 100)\<rparr>)"
    "length row = nat (3 + 2)" "list_all (\<lambda>c. short_arc (hue c)) row" by blast
  then have "\<exists>row. add_gradient (10, 50, 50) (350, 50, 50) 3 False (init (360, 100, 100)) =
            (None, \<lparr>rows = [row], hsv_range = (360, 100, 100)\<rparr>)
        \<and> length row = 5 \<and> list_all (\<lambda>c. short_arc (hue c)) row"
    by (intro exI [of _ row]) (simp add: eval_nat_numeral)
  with first show ?thesis by blast
qed

end
